theory Spec2Isabelle
  imports Complex_Main
begin

unbundle bit_operations_syntax

section \<open>Machine integers and failures\<close>

text \<open>
  The accelerator is C++: \<^verbatim>\<open>int\<close> is a 32-bit two's complement integer and
  \<^verbatim>\<open>size_t\<close> an unsigned 64-bit one. Values of both are modelled by HOL numbers
  (\<^typ>\<open>int\<close>, \<^typ>\<open>nat\<close>); every conversion between the two that can change the
  value is written out.
\<close>

definition is_int32 :: "int \<Rightarrow> bool" where
  "is_int32 x = (- (2 ^ 31) \<le> x \<and> x < 2 ^ 31)"

text \<open>\<^verbatim>\<open>static_cast<int>(i)\<close> for a \<^verbatim>\<open>size_t i\<close>: the value modulo \<open>2^32\<close>, read as
  two's complement.\<close>

definition static_cast_int :: "nat \<Rightarrow> int" where
  "static_cast_int i =
     (let m = int i mod 2 ^ 32 in if m < 2 ^ 31 then m else m - 2 ^ 32)"

text \<open>The implicit conversion of an \<^verbatim>\<open>int\<close> operand to \<^verbatim>\<open>size_t\<close>: the value modulo
  \<open>2^64\<close>.\<close>

definition size_t_of_int :: "int \<Rightarrow> nat" where
  "size_t_of_int k = nat (k mod 2 ^ 64)"

text \<open>
  What a call can do other than return: \<open>Length_error\<close> is the exception
  \<^verbatim>\<open>std::length_error\<close> of a container asked for more than \<^verbatim>\<open>max_size()\<close> elements; the
  others are undefined behaviour of C++ (an integer division by zero, an access outside a
  vector, a shift by at least the width of the operand, a signed overflow).
\<close>

datatype failure =
  Length_error | Division_by_zero | Out_of_bounds | Undefined_shift | Signed_overflow

section \<open>Position encoder\<close>

text \<open>
  \<^verbatim>\<open>for (int bit = n_qubits - 1; bit >= 0; --bit)
    binary += ((pos >> bit) & 1) ? '1' : '0';\<close>
  \<open>pos\<close> is a non-negative \<^verbatim>\<open>int\<close>, so \<^verbatim>\<open>pos >> bit\<close> drops the \<open>bit\<close> low bits; a shift
  by \<open>32\<close> or more, the width of \<^verbatim>\<open>int\<close>, is undefined behaviour. (\<open>bit\<close> is a constant of
  HOL: the loop counter is written \<open>bit'\<close>.)
\<close>

function bit_loop :: "int \<Rightarrow> int \<Rightarrow> string \<Rightarrow> failure + string" where
  "bit_loop pos bit' binary =
     (if bit' \<ge> 0
      then (if bit' \<ge> 32 then Inl Undefined_shift
            else bit_loop pos (bit' - 1)
                   (binary @ [if drop_bit (nat bit') pos AND 1 \<noteq> 0 then CHR ''1'' else CHR ''0'']))
      else Inr binary)"
  by pat_completeness auto
termination
  by (relation "measure (\<lambda>(pos, bit', binary). nat (bit' + 1))") auto

declare bit_loop.simps [simp del]

text \<open>
  \<^verbatim>\<open>for (int pos = 0; pos < num_candidates; ++pos) { std::string binary;
  binary.reserve(n_qubits); ...; encodings.push_back(binary); }\<close>
  \<^verbatim>\<open>reserve\<close> takes a \<^verbatim>\<open>size_t\<close>: a negative argument is converted to a number above
  \<^verbatim>\<open>max_size()\<close>, and the call throws \<^verbatim>\<open>std::length_error\<close>.
\<close>

function pos_loop :: "int \<Rightarrow> int \<Rightarrow> int \<Rightarrow> string list \<Rightarrow> failure + string list" where
  "pos_loop num_candidates n_qubits pos encodings =
     (if pos < num_candidates
      then (if n_qubits < 0 then Inl Length_error
            else (case bit_loop pos (n_qubits - 1) [] of
                    Inl e \<Rightarrow> Inl e
                  | Inr binary \<Rightarrow>
                      pos_loop num_candidates n_qubits (pos + 1) (encodings @ [binary])))
      else Inr encodings)"
  by pat_completeness auto
termination
  by (relation "measure (\<lambda>(num_candidates, n_qubits, pos, encodings).
        nat (num_candidates - pos))") auto

declare pos_loop.simps [simp del]

definition encode_positions :: "int \<Rightarrow> int \<Rightarrow> failure + string list" where
  "encode_positions num_candidates n_qubits =
     (if num_candidates < 0 then Inl Length_error
      else pos_loop num_candidates n_qubits 0 [])"

text \<open>
  What the encoding is to be: the binary digits of \<open>i\<close> at the places \<open>width - 1, \<dots>, 0\<close>,
  most significant first (zeros on the left when \<open>i\<close> is short, the low-order \<open>width\<close> bits
  when it is long), and the reading of a string of binary digits as a number.
\<close>

definition binary_expansion :: "nat \<Rightarrow> nat \<Rightarrow> string" where
  "binary_expansion width i =
     map (\<lambda>b. if odd (i div 2 ^ b) then CHR ''1'' else CHR ''0'') (rev [0 ..< width])"

definition parse_binary :: "string \<Rightarrow> nat" where
  "parse_binary s = foldl (\<lambda>acc c. 2 * acc + (if c = CHR ''1'' then 1 else 0)) 0 s"

section \<open>Sequence matcher\<close>

subsection \<open>The comparison at one start offset\<close>

text \<open>
  The inner loop of \<^verbatim>\<open>find_pattern_matches\<close> and of the worker of
  \<^verbatim>\<open>find_pattern_matches_parallel\<close> (the two bodies are the same text):
  \<^verbatim>\<open>bool match = true;
  for (size_t j = 0; j < pattern_len; ++j)
    if (sequence[i + j] != pattern[j]) { match = false; break; }\<close>
  \<open>compare_at sequence pattern i j\<close> is the value of \<^verbatim>\<open>match\<close> after the loop, entered
  with the counter at \<open>j\<close>.
\<close>

function compare_at :: "string \<Rightarrow> string \<Rightarrow> nat \<Rightarrow> nat \<Rightarrow> bool" where
  "compare_at sequence pattern i j =
     (if j < length pattern
      then (if sequence ! (i + j) \<noteq> pattern ! j then False
            else compare_at sequence pattern i (Suc j))
      else True)"
  by pat_completeness auto
termination
  by (relation "measure (\<lambda>(sequence, pattern, i, j). length pattern - j)") auto

declare compare_at.simps [simp del]

subsection \<open>Serial search\<close>

text \<open>
  \<^verbatim>\<open>for (size_t i = 0; i <= sequence_len - pattern_len; ++i) { ... if (match)
  matches.push_back(static_cast<int>(i)); }\<close>
  The loop is entered only when \<open>pattern_len \<le> sequence_len\<close>, so the subtraction does
  not wrap.
\<close>

function serial_scan :: "string \<Rightarrow> string \<Rightarrow> nat \<Rightarrow> int list \<Rightarrow> int list" where
  "serial_scan sequence pattern i matches =
     (if i \<le> length sequence - length pattern
      then serial_scan sequence pattern (Suc i)
             (if compare_at sequence pattern i 0 then matches @ [static_cast_int i]
              else matches)
      else matches)"
  by pat_completeness auto
termination
  by (relation "measure (\<lambda>(sequence, pattern, i, matches).
        Suc (length sequence - length pattern) - i)") auto

declare serial_scan.simps [simp del]

definition find_pattern_matches :: "string \<Rightarrow> string \<Rightarrow> int list" where
  "find_pattern_matches sequence pattern =
     (if pattern = [] \<or> sequence = [] \<or> length pattern > length sequence then []
      else serial_scan sequence pattern 0 [])"

subsection \<open>Parallel search\<close>

text \<open>
  The task given to \<^verbatim>\<open>std::async\<close>: it scans the start offsets \<open>start \<le> i < end\<close> into
  a vector of its own. It reads \<open>sequence\<close> and \<open>pattern\<close> only, so its result is a
  function of its bounds, whatever the scheduling.
\<close>

function worker :: "string \<Rightarrow> string \<Rightarrow> nat \<Rightarrow> nat \<Rightarrow> int list \<Rightarrow> int list" where
  "worker sequence pattern i end local_matches =
     (if i < end
      then worker sequence pattern (Suc i) end
             (if compare_at sequence pattern i 0 then local_matches @ [static_cast_int i]
              else local_matches)
      else local_matches)"
  by pat_completeness auto
termination
  by (relation "measure (\<lambda>(sequence, pattern, i, end, local_matches). end - i)") auto

declare worker.simps [simp del]

text \<open>
  \<^verbatim>\<open>for (int t = 0; t < num_threads; ++t) {
    size_t start = t * chunk_size;
    size_t end = (t == num_threads - 1) ? search_len : (t + 1) * chunk_size;
    futures.push_back(std::async(...)); }\<close>
  A future is modelled by the bounds \<open>(start, end)\<close> its task captured; \<^verbatim>\<open>get()\<close> is
  \<open>worker\<close> run on them. Inside the loop \<open>0 \<le> t < num_threads\<close>, so the conversion of
  \<open>t\<close> to \<^verbatim>\<open>size_t\<close> keeps its value, and the products are at most \<open>search_len\<close>: they do
  not wrap.
\<close>

function spawn :: "int \<Rightarrow> nat \<Rightarrow> nat \<Rightarrow> int \<Rightarrow> (nat \<times> nat) list \<Rightarrow> (nat \<times> nat) list" where
  "spawn num_threads search_len chunk_size t futures =
     (if t < num_threads
      then spawn num_threads search_len chunk_size (t + 1)
             (futures @ [(nat t * chunk_size,
                if t = num_threads - 1 then search_len else nat (t + 1) * chunk_size)])
      else futures)"
  by pat_completeness auto
termination
  by (relation "measure (\<lambda>(num_threads, search_len, chunk_size, t, futures).
        nat (num_threads - t))") auto

declare spawn.simps [simp del]

text \<open>
  \<^verbatim>\<open>search_len / num_threads\<close> is a \<^verbatim>\<open>size_t\<close> division: \<open>num_threads\<close> is converted
  first, and a zero divisor is undefined behaviour. The results are appended in the order
  of the futures and sorted with \<^verbatim>\<open>std::sort\<close>.
\<close>

definition find_pattern_matches_parallel :: "string \<Rightarrow> string \<Rightarrow> int \<Rightarrow> failure + int list" where
  "find_pattern_matches_parallel sequence pattern num_threads =
     (if pattern = [] \<or> sequence = [] \<or> length pattern > length sequence then Inr []
      else
        let search_len = length sequence - length pattern + 1 in
        if size_t_of_int num_threads = 0 then Inl Division_by_zero
        else
          let chunk_size = search_len div size_t_of_int num_threads;
              futures = spawn num_threads search_len chunk_size 0 [];
              all_matches = concat (map (\<lambda>(start, end). worker sequence pattern start end []) futures)
          in Inr (sort all_matches))"

text \<open>The start offsets that a list of futures scans, in the order of the futures.\<close>

definition offsets :: "(nat \<times> nat) list \<Rightarrow> nat list" where
  "offsets futures = concat (map (\<lambda>(start, end). [start ..< end]) futures)"

subsection \<open>What the search is to find\<close>

text \<open>The pattern occurs verbatim in the sequence at start offset \<open>i\<close>.\<close>

definition occurs_at :: "string \<Rightarrow> string \<Rightarrow> nat \<Rightarrow> bool" where
  "occurs_at sequence pattern i =
     (i + length pattern \<le> length sequence \<and> take (length pattern) (drop i sequence) = pattern)"

section \<open>Oracle builder\<close>

text \<open>
  \<^verbatim>\<open>for (int match : matches)
    if (match < database_size) diagonal[match] = std::complex<double>(-1.0, 0.0);\<close>
  \<^verbatim>\<open>operator[]\<close> takes a \<^verbatim>\<open>size_t\<close> and checks nothing: an index that, once converted, is
  not below the size of the vector is an access out of bounds. The entries are
  the doubles \<open>1.0\<close>, \<open>-1.0\<close> and \<open>0.0\<close>, which are exact.
\<close>

fun mark :: "int list \<Rightarrow> int \<Rightarrow> complex list \<Rightarrow> failure + complex list" where
  "mark [] database_size diagonal = Inr diagonal"
| "mark (match # matches) database_size diagonal =
     (if match < database_size
      then (if size_t_of_int match < length diagonal
            then mark matches database_size (diagonal[size_t_of_int match := Complex (- 1) 0])
            else Inl Out_of_bounds)
      else mark matches database_size diagonal)"

text \<open>
  \<^verbatim>\<open>std::vector<std::complex<double>> diagonal(database_size, ...)\<close>: the size is a
  \<^verbatim>\<open>size_t\<close>, so a negative \<open>database_size\<close> asks for more than \<^verbatim>\<open>max_size()\<close> elements
  and the constructor throws \<^verbatim>\<open>std::length_error\<close>.
\<close>

definition build_oracle_diagonal :: "int list \<Rightarrow> int \<Rightarrow> failure + complex list" where
  "build_oracle_diagonal matches database_size =
     (if database_size < 0 then Inl Length_error
      else mark matches database_size (replicate (nat database_size) (Complex 1 0)))"

section \<open>Double-precision numbers\<close>

text \<open>
  A \<^verbatim>\<open>double\<close> is modelled by the real number it denotes, or by one of the three special
  values of IEEE 754. The two zeros are not told apart: no operation below divides
  by a computed zero or tests a sign.
\<close>

datatype double = Finite real | Inf_pos | Inf_neg | NaN

text \<open>
  The result of an arithmetic operation is the double nearest to the exact result, ties to
  the even significand: with \<open>2^k \<le> |x| < 2^(k+1)\<close> the doubles around \<open>x\<close> are the multiples
  of \<open>2^(k-52)\<close>. Overflow and subnormal numbers are not modelled: the operands below
  come from \<^verbatim>\<open>int\<close> values, and no result leaves the normal range.
\<close>

definition round_double :: "real \<Rightarrow> real" where
  "round_double x =
     (if x = 0 then 0
      else
        let e = \<lfloor>log 2 \<bar>x\<bar>\<rfloor> - 52;
            m = x / 2 powr real_of_int e;
            f = \<lfloor>m\<rfloor>
        in (if m - real_of_int f < 1 / 2 \<or> (m - real_of_int f = 1 / 2 \<and> even f)
            then real_of_int f else real_of_int (f + 1)) * 2 powr real_of_int e)"

text \<open>\<^verbatim>\<open>static_cast<double>\<close> of an \<^verbatim>\<open>int\<close> or of a container size is exact.\<close>

definition double_of_int :: "int \<Rightarrow> double" where
  "double_of_int k = Finite (real_of_int k)"

definition double_of_size :: "nat \<Rightarrow> double" where
  "double_of_size n = Finite (real n)"

text \<open>Division, multiplication and subtraction with the special values of IEEE 754.\<close>

fun ddiv :: "double \<Rightarrow> double \<Rightarrow> double" where
  "ddiv NaN y = NaN"
| "ddiv x NaN = NaN"
| "ddiv (Finite a) (Finite b) =
     (if b = 0 then (if a = 0 then NaN else if 0 < a then Inf_pos else Inf_neg)
      else Finite (round_double (a / b)))"
| "ddiv (Finite a) y = Finite 0"
| "ddiv Inf_pos (Finite b) = (if b < 0 then Inf_neg else Inf_pos)"
| "ddiv Inf_neg (Finite b) = (if b < 0 then Inf_pos else Inf_neg)"
| "ddiv x y = NaN"

fun dmul :: "double \<Rightarrow> double \<Rightarrow> double" where
  "dmul NaN y = NaN"
| "dmul x NaN = NaN"
| "dmul (Finite a) (Finite b) = Finite (round_double (a * b))"
| "dmul (Finite a) Inf_pos = (if a = 0 then NaN else if 0 < a then Inf_pos else Inf_neg)"
| "dmul (Finite a) Inf_neg = (if a = 0 then NaN else if 0 < a then Inf_neg else Inf_pos)"
| "dmul Inf_pos (Finite b) = (if b = 0 then NaN else if 0 < b then Inf_pos else Inf_neg)"
| "dmul Inf_neg (Finite b) = (if b = 0 then NaN else if 0 < b then Inf_neg else Inf_pos)"
| "dmul Inf_pos Inf_pos = Inf_pos"
| "dmul Inf_neg Inf_neg = Inf_pos"
| "dmul x y = Inf_neg"

fun dsub :: "double \<Rightarrow> double \<Rightarrow> double" where
  "dsub NaN y = NaN"
| "dsub x NaN = NaN"
| "dsub (Finite a) (Finite b) = Finite (round_double (a - b))"
| "dsub (Finite a) Inf_pos = Inf_neg"
| "dsub (Finite a) Inf_neg = Inf_pos"
| "dsub Inf_pos Inf_pos = NaN"
| "dsub Inf_neg Inf_neg = NaN"
| "dsub Inf_pos y = Inf_pos"
| "dsub Inf_neg y = Inf_neg"

text \<open>
  \<^verbatim>\<open>std::log2\<close> belongs to the C library, not to the accelerator: its value on a positive
  finite double is the parameter \<open>lg\<close>; its values elsewhere are those of the C standard.
\<close>

fun dlog2 :: "(real \<Rightarrow> real) \<Rightarrow> double \<Rightarrow> double" where
  "dlog2 lg (Finite a) = (if 0 < a then Finite (lg a) else if a = 0 then Inf_neg else NaN)"
| "dlog2 lg Inf_pos = Inf_pos"
| "dlog2 lg x = NaN"

section \<open>Statistics analyzer\<close>

text \<open>
  The histogram is a \<^verbatim>\<open>std::unordered_map<std::string, int>\<close>; it is modelled by the list of
  its entries in the order of iteration, which the map leaves unspecified: what is proved
  holds for every order. The keys of a map are distinct.

  \<^verbatim>\<open>for (const auto& [state, count] : counts)
    if (count > 0) { double probability = static_cast<double>(count) / total_shots;
                     entropy -= probability * std::log2(probability); }\<close>
\<close>

fun entropy_loop :: "(real \<Rightarrow> real) \<Rightarrow> (string \<times> int) list \<Rightarrow> int \<Rightarrow> double \<Rightarrow> double" where
  "entropy_loop lg [] total_shots entropy = entropy"
| "entropy_loop lg ((state, count) # counts) total_shots entropy =
     entropy_loop lg counts total_shots
       (if count > 0
        then (let probability = ddiv (double_of_int count) (double_of_int total_shots)
              in dsub entropy (dmul probability (dlog2 lg probability)))
        else entropy)"

definition calculate_shannon_entropy :: "(real \<Rightarrow> real) \<Rightarrow> (string \<times> int) list \<Rightarrow> int \<Rightarrow> double" where
  "calculate_shannon_entropy lg counts total_shots = entropy_loop lg counts total_shots (Finite 0)"

text \<open>
  \<^verbatim>\<open>for (const auto& [state, count] : counts) {
    if (count > max_count) { max_count = count; most_frequent_state = state; }
    total_match_shots += count; }\<close>
  Both accumulators are \<^verbatim>\<open>int\<close>: a sum outside the range of \<^verbatim>\<open>int\<close> is a signed overflow.
  \<open>most_frequent_state\<close> is written and never read, and is left out.
\<close>

fun tally :: "(string \<times> int) list \<Rightarrow> int \<Rightarrow> int \<Rightarrow> failure + int \<times> int" where
  "tally [] total_match_shots max_count = Inr (total_match_shots, max_count)"
| "tally ((state, count) # counts) total_match_shots max_count =
     (if is_int32 (total_match_shots + count)
      then tally counts (total_match_shots + count)
             (if count > max_count then count else max_count)
      else Inl Signed_overflow)"

text \<open>The report is the map from the four metric names to their values;
  \<open>expected_matches\<close> is not used.\<close>

definition analyze_measurement_statistics ::
  "(real \<Rightarrow> real) \<Rightarrow> (string \<times> int) list \<Rightarrow> int list \<Rightarrow> int \<Rightarrow> failure + (string \<rightharpoonup> double)" where
  "analyze_measurement_statistics lg counts expected_matches total_shots =
     (case tally counts 0 0 of
        Inl e \<Rightarrow> Inl e
      | Inr (total_match_shots, max_count) \<Rightarrow>
          Inr (Map.empty
            (''success_probability'' \<mapsto> ddiv (double_of_int total_match_shots) (double_of_int total_shots),
             ''max_amplitude'' \<mapsto> ddiv (double_of_int max_count) (double_of_int total_shots),
             ''entropy'' \<mapsto> calculate_shannon_entropy lg counts total_shots,
             ''num_unique_states'' \<mapsto> double_of_size (length counts))))"

section \<open>Iteration calculator\<close>

text \<open>
  \<^verbatim>\<open>M_PI\<close> is the literal \<^verbatim>\<open>3.14159265358979323846\<close> (the fallback of the source and the
  value of the C library), read as a \<^verbatim>\<open>double\<close>.
\<close>

definition M_PI :: real where
  "M_PI = round_double (314159265358979323846 / 10 ^ 20)"

text \<open>
  \<^verbatim>\<open>double ratio = static_cast<double>(total_items) / static_cast<double>(marked_items);
  int iterations = static_cast<int>(std::floor((M_PI / 4.0) * std::sqrt(ratio)));
  return std::max(1, iterations);\<close>
  Past the guard both arguments are positive, so every intermediate result is a positive
  finite double: the division, the square root and the product are each the exact result
  rounded, and the floor, at most \<open>36397\<close>, is converted to \<^verbatim>\<open>int\<close> unchanged.
\<close>

definition calculate_optimal_iterations :: "int \<Rightarrow> int \<Rightarrow> int" where
  "calculate_optimal_iterations total_items marked_items =
     (if marked_items \<le> 0 \<or> total_items \<le> 0 then 1
      else
        let ratio = round_double (real_of_int total_items / real_of_int marked_items);
            iterations = \<lfloor>round_double (round_double (M_PI / 4) * round_double (sqrt ratio))\<rfloor>
        in max 1 iterations)"

text \<open>
  The value as the specification words it, in real arithmetic:
  \<open>max(1, floor((\<pi>/4) \<sqdot> sqrt(total_items / marked_items)))\<close>, and \<open>1\<close> when an argument is
  not positive.
\<close>

definition optimal_iterations_formula :: "int \<Rightarrow> int \<Rightarrow> int" where
  "optimal_iterations_formula total_items marked_items =
     (if marked_items \<le> 0 \<or> total_items \<le> 0 then 1
      else max 1 \<lfloor>pi / 4 * sqrt (real_of_int total_items / real_of_int marked_items)\<rfloor>)"

text \<open>The partial sums of the series of the arctangent, from which \<open>\<pi>\<close> is bounded.\<close>

definition arctan_sum :: "real \<Rightarrow> nat \<Rightarrow> real" where
  "arctan_sum x n = (\<Sum>i<n. (- 1) ^ i * (1 / real (i * 2 + 1) * x ^ (i * 2 + 1)))"

section \<open>Properties of the sequence matcher\<close>

lemma compare_at_iff:
  "compare_at s p i j = (\<forall>k. j \<le> k \<and> k < length p \<longrightarrow> s ! (i + k) = p ! k)"
proof (induction s p i j rule: compare_at.induct)
  case (1 s p i j)
  show ?case
  proof (cases "j < length p")
    case False
    then show ?thesis by (auto simp: compare_at.simps [of s p i j])
  next
    case True
    show ?thesis
    proof (cases "s ! (i + j) = p ! j")
      case False
      with True show ?thesis by (auto simp: compare_at.simps [of s p i j])
    next
      case eq: True
      have "compare_at s p i j = compare_at s p i (Suc j)"
        using True eq by (simp add: compare_at.simps [of s p i j])
      also have "\<dots> = (\<forall>k. Suc j \<le> k \<and> k < length p \<longrightarrow> s ! (i + k) = p ! k)"
        using "1.IH" True eq by simp
      also have "\<dots> = (\<forall>k. j \<le> k \<and> k < length p \<longrightarrow> s ! (i + k) = p ! k)"
        using eq by (metis Suc_leI le_neq_implies_less Suc_leD)
      finally show ?thesis .
    qed
  qed
qed

lemma compare_at_occurs:
  assumes "i + length p \<le> length s"
  shows "compare_at s p i 0 = occurs_at s p i"
proof -
  have "(take (length p) (drop i s) = p) = (\<forall>k < length p. s ! (i + k) = p ! k)"
    using assms by (auto simp: list_eq_iff_nth_eq)
  then show ?thesis
    using assms by (simp add: compare_at_iff occurs_at_def)
qed

lemma serial_scan_eq:
  "serial_scan s p i acc =
     acc @ map static_cast_int (filter (\<lambda>i. compare_at s p i 0) [i ..< Suc (length s - length p)])"
proof (induction s p i acc rule: serial_scan.induct)
  case (1 s p i acc)
  show ?case
  proof (cases "i \<le> length s - length p")
    case False
    then show ?thesis by (simp add: serial_scan.simps [of s p i acc])
  next
    case True
    then have upt: "[i ..< Suc (length s - length p)] = i # [Suc i ..< Suc (length s - length p)]"
      by (simp add: upt_conv_Cons del: upt_Suc)
    show ?thesis
      using True "1.IH" by (simp add: serial_scan.simps [of s p i acc] upt del: upt_Suc)
  qed
qed

lemma worker_eq:
  "worker s p i e acc =
     acc @ map static_cast_int (filter (\<lambda>i. compare_at s p i 0) [i ..< e])"
proof (induction s p i e acc rule: worker.induct)
  case (1 s p i e acc)
  show ?case
  proof (cases "i < e")
    case False
    then show ?thesis by (simp add: worker.simps [of s p i e acc])
  next
    case True
    then have upt: "[i ..< e] = i # [Suc i ..< e]"
      by (simp add: upt_conv_Cons)
    show ?thesis
      using True "1.IH" by (simp add: worker.simps [of s p i e acc] upt)
  qed
qed

subsection \<open>The serial search finds the occurrences\<close>

lemma static_cast_int_id: "i < 2 ^ 31 \<Longrightarrow> static_cast_int i = int i"
proof -
  assume a: "i < 2 ^ 31"
  then have "int i < 2 ^ 31" by (metis of_nat_less_iff of_nat_numeral of_nat_power)
  then show ?thesis by (simp add: static_cast_int_def Let_def)
qed

lemma filter_compare_occurs:
  assumes "length p \<le> length s"
  shows "filter (\<lambda>i. compare_at s p i 0) [0 ..< Suc (length s - length p)]
       = filter (occurs_at s p) [0 ..< Suc (length s - length p)]"
proof (rule filter_cong [OF refl])
  fix i assume "i \<in> set [0 ..< Suc (length s - length p)]"
  then have "i + length p \<le> length s" using assms by auto
  then show "compare_at s p i 0 = occurs_at s p i" by (rule compare_at_occurs)
qed

lemma filter_occurs_extend:
  assumes "p \<noteq> []"
  shows "filter (occurs_at s p) [0 ..< Suc (length s - length p)] = filter (occurs_at s p) [0 ..< length s]"
proof (cases "length p \<le> length s")
  case True
  with assms have le: "Suc (length s - length p) \<le> length s" by (cases p) auto
  have "[0 ..< length s] = [0 ..< Suc (length s - length p)] @ [Suc (length s - length p) ..< length s]"
    using le by (metis le0 upt_add_eq_append le_add_diff_inverse)
  moreover have "filter (occurs_at s p) [Suc (length s - length p) ..< length s] = []"
    using True by (auto simp: filter_empty_conv occurs_at_def)
  ultimately show ?thesis by simp
next
  case False
  then have "filter (occurs_at s p) xs = []" for xs
    by (auto simp: filter_empty_conv occurs_at_def)
  then show ?thesis by (simp del: upt_Suc)
qed

lemma serial_characterisation:
  assumes "p \<noteq> []" "s \<noteq> []" "length p \<le> length s"
  shows "find_pattern_matches s p = map static_cast_int (filter (occurs_at s p) [0 ..< length s])"
  using assms
  by (simp add: find_pattern_matches_def serial_scan_eq filter_compare_occurs filter_occurs_extend
      del: upt_Suc)

lemma map_cast_small:
  assumes "\<forall>i \<in> set xs. i < 2 ^ 31"
  shows "map static_cast_int xs = map int xs"
  using assms by (simp add: static_cast_int_id)

lemma sorted_map_int_filter: "sorted_wrt (<) (map int (filter q [a ..< b]))"
proof -
  have "sorted_wrt (<) (filter q [a ..< b])"
    by (rule sorted_wrt_filter) simp
  then show ?thesis by (simp add: sorted_wrt_map)
qed



subsection \<open>The chunks partition the start offsets\<close>

lemma offsets_append: "offsets (fs @ gs) = offsets fs @ offsets gs"
  by (simp add: offsets_def)

lemma offsets_single: "offsets [(a, b)] = [a ..< b]"
  by (simp add: offsets_def)

lemma spawn_none: "\<not> t < k \<Longrightarrow> spawn k L c t fs = fs"
  by (simp add: spawn.simps [of k L c t fs])

lemma spawn_offsets:
  assumes "0 \<le> t" "t < k" "nat k * c \<le> L"
  shows "offsets (spawn k L c t fs) = offsets fs @ [nat t * c ..< L]"
  using assms
proof (induction k L c t fs rule: spawn.induct)
  case (1 k L c t fs)
  show ?case
  proof (cases "t = k - 1")
    case True
    have "spawn k L c t fs = spawn k L c (t + 1) (fs @ [(nat t * c, L)])"
      by (subst spawn.simps) (use "1.prems" True in simp)
    also have "\<dots> = fs @ [(nat t * c, L)]"
      using True by (simp add: spawn_none)
    finally show ?thesis by (simp add: offsets_append offsets_single)
  next
    case False
    with "1.prems" have lt: "t + 1 < k" by simp
    have "nat (t + 1) \<le> nat k" using lt by simp
    then have "nat (t + 1) * c \<le> nat k * c" by (rule mult_le_mono1)
    also have "\<dots> \<le> L" by (rule "1.prems")
    finally have up: "nat (t + 1) * c \<le> L" .
    have "nat t \<le> nat (t + 1)" by simp
    then have lo: "nat t * c \<le> nat (t + 1) * c" by (rule mult_le_mono1)
    have "spawn k L c t fs = spawn k L c (t + 1) (fs @ [(nat t * c, nat (t + 1) * c)])"
      by (subst spawn.simps) (use "1.prems" False in simp)
    also have "offsets \<dots> = offsets (fs @ [(nat t * c, nat (t + 1) * c)]) @ [nat (t + 1) * c ..< L]"
      using "1.IH" "1.prems" lt by simp
    also have "\<dots> = offsets fs @ ([nat t * c ..< nat (t + 1) * c] @ [nat (t + 1) * c ..< L])"
      by (simp add: offsets_append offsets_single)
    also have "[nat t * c ..< nat (t + 1) * c] @ [nat (t + 1) * c ..< L] = [nat t * c ..< L]"
      using lo up by (metis le_add_diff_inverse upt_add_eq_append)
    finally show ?thesis .
  qed
qed

lemma spawn_covers:
  assumes "1 \<le> k"
  shows "offsets (spawn k L (L div nat k) 0 []) = [0 ..< L]"
proof -
  have "nat k * (L div nat k) \<le> L" by simp
  then show ?thesis
    using spawn_offsets [of 0 k "L div nat k" L "[]"] assms by (simp add: offsets_def)
qed

lemma workers_offsets:
  "concat (map (\<lambda>(start, end). worker s p start end []) fs)
     = map static_cast_int (filter (\<lambda>i. compare_at s p i 0) (offsets fs))"
  by (induction fs) (auto simp: offsets_def worker_eq)

lemma size_t_of_int_pos: "1 \<le> k \<Longrightarrow> k < 2 ^ 31 \<Longrightarrow> size_t_of_int k = nat k"
  by (simp add: size_t_of_int_def)

lemma parallel_characterisation:
  assumes "p \<noteq> []" "length p \<le> length s" "1 \<le> k" "k < 2 ^ 31"
  shows "find_pattern_matches_parallel s p k = Inr (sort (find_pattern_matches s p))"
proof -
  from assms have nd: "s \<noteq> []" by auto
  have k: "size_t_of_int k = nat k" "nat k \<noteq> 0"
    using assms by (simp_all add: size_t_of_int_pos)
  show ?thesis
    using assms nd k
    by (simp add: find_pattern_matches_parallel_def find_pattern_matches_def Let_def
        workers_offsets spawn_covers serial_scan_eq del: upt_Suc)
qed

subsection \<open>Start offsets that do not fit the result type\<close>

text \<open>
  The positions are returned as \<^verbatim>\<open>int\<close>. A sequence of more than \<open>2^31\<close> characters has
  start offsets that the narrowing conversion changes: the offset \<open>2^31\<close> is returned as
  \<open>- 2^31\<close>.
\<close>

lemma compare_at_single: "compare_at s [a] i 0 = (s ! i = a)"
  by (simp add: compare_at_iff)

lemma filter_upt_none:
  assumes "\<And>i. a \<le> i \<Longrightarrow> i < b \<Longrightarrow> \<not> q i"
  shows "filter q [a ..< b] = []"
  using assms by (auto simp: filter_empty_conv)

lemma far_match:
  assumes "c \<noteq> a"
  shows "find_pattern_matches (replicate n c @ [a]) [a] = [static_cast_int n]"
proof -
  let ?s = "replicate n c @ [a]"
  have none: "filter (\<lambda>i. ?s ! i = a) [0 ..< n] = []"
    using assms by (intro filter_upt_none) (simp add: nth_append)
  have "filter (\<lambda>i. ?s ! i = a) [0 ..< Suc n] = [n]"
    using none by (simp add: nth_append)
  then show ?thesis
    by (simp add: find_pattern_matches_def serial_scan_eq compare_at_single del: upt_Suc)
qed

lemma two_matches:
  assumes "c \<noteq> a"
  shows "find_pattern_matches (a # replicate n c @ [a]) [a] = [static_cast_int 0, static_cast_int (Suc n)]"
proof -
  let ?s = "a # replicate n c @ [a]"
  have none: "filter (\<lambda>i. ?s ! i = a) [Suc 0 ..< Suc n] = []"
    using assms by (intro filter_upt_none) (auto simp: nth_append nth_Cons')
  have "[0 ..< Suc (Suc n)] = 0 # [Suc 0 ..< Suc n] @ [Suc n]"
    by (simp add: upt_conv_Cons)
  then have "filter (\<lambda>i. ?s ! i = a) [0 ..< Suc (Suc n)] = [0, Suc n]"
    using none by (simp add: nth_append del: upt_Suc)
  then show ?thesis
    by (simp add: find_pattern_matches_def serial_scan_eq compare_at_single del: upt_Suc)
qed

lemma cast_2_31: "static_cast_int 2147483648 = - 2147483648"
  by (simp add: static_cast_int_def)

lemma cast_0: "static_cast_int 0 = 0"
  by (simp add: static_cast_int_def)

text \<open>
  Claim C2 as stated, for every sequence, fails on a sequence of \<open>2^31\<close> characters \<open>C\<close>
  followed by one \<open>A\<close>: the pattern \<open>A\<close> occurs at the offset \<open>2147483648\<close> only, and
  the position returned is negative.
\<close>

theorem find_pattern_matches_beyond_int:
  "find_pattern_matches (replicate 2147483648 (CHR ''C'') @ ''A'') ''A'' = [- 2147483648]"
  using far_match [of "CHR ''C''" "CHR ''A''" 2147483648] by (simp add: cast_2_31)

text \<open>
  Claim C1 as stated, for every sequence, fails on \<open>A\<close>, then \<open>2^31 - 1\<close> characters
  \<open>C\<close>, then \<open>A\<close>: the serial search returns the positions in the order of the scan, the
  second one wrapped to a negative number, and the parallel search sorts them, so that the
  two results differ already with one thread.
\<close>

theorem parallel_differs_beyond_int:
  "find_pattern_matches (CHR ''A'' # replicate 2147483647 (CHR ''C'') @ ''A'') ''A'' = [0, - 2147483648]
   \<and> find_pattern_matches_parallel (CHR ''A'' # replicate 2147483647 (CHR ''C'') @ ''A'') ''A'' 1
       = Inr [- 2147483648, 0]"
proof -
  let ?s = "CHR ''A'' # replicate 2147483647 (CHR ''C'') @ ''A''"
  have ser: "find_pattern_matches ?s ''A'' = [0, - 2147483648]"
    using two_matches [of "CHR ''C''" "CHR ''A''" 2147483647] by (simp add: cast_2_31 cast_0)
  have "find_pattern_matches_parallel ?s ''A'' 1 = Inr (sort (find_pattern_matches ?s ''A''))"
    by (rule parallel_characterisation) simp_all
  then show ?thesis by (simp add: ser)
qed

subsection \<open>The claims about the matcher\<close>

lemma serial_small:
  assumes "length s - length p < 2 ^ 31" "p \<noteq> []"
  shows "find_pattern_matches s p = map int (filter (occurs_at s p) [0 ..< length s])"
proof (cases "s \<noteq> [] \<and> length p \<le> length s")
  case True
  have "\<forall>i \<in> set (filter (occurs_at s p) [0 ..< length s]). i < 2 ^ 31"
    using assms by (auto simp: occurs_at_def)
  then show ?thesis
    using True assms by (simp add: serial_characterisation map_cast_small)
next
  case False
  then have "filter (occurs_at s p) xs = []" for xs
    using assms by (auto simp: filter_empty_conv occurs_at_def)
  then show ?thesis
    using False by (auto simp: find_pattern_matches_def)
qed

lemma serial_ascending:
  assumes "length s - length p < 2 ^ 31"
  shows "sorted_wrt (<) (find_pattern_matches s p)"
proof (cases "p = []")
  case True
  then show ?thesis by (simp add: find_pattern_matches_def)
next
  case False
  then show ?thesis using assms by (simp add: serial_small sorted_map_int_filter)
qed

text \<open>
  Claim C2, amended: for every sequence and pattern whose start offsets all fit the result
  type (\<open>|S| - |P| < 2^31\<close>), \<open>find_pattern_matches\<close> returns the empty list when the
  pattern is empty, the sequence is empty or the pattern is longer than the sequence, and
  otherwise the zero-based start offsets at which the pattern occurs verbatim, every one
  of them, overlapping ones too, in strictly ascending order; on \<open>AAAA\<close> and \<open>AA\<close> the
  result is \<open>[0, 1, 2]\<close>.
\<close>

theorem find_pattern_matches_positions:
  assumes "length sequence - length pattern < 2 ^ 31"
  shows "(pattern = [] \<or> sequence = [] \<or> length pattern > length sequence
            \<longrightarrow> find_pattern_matches sequence pattern = [])
       \<and> (pattern \<noteq> [] \<longrightarrow> find_pattern_matches sequence pattern
            = map int (filter (occurs_at sequence pattern) [0 ..< length sequence]))
       \<and> sorted_wrt (<) (find_pattern_matches sequence pattern)
       \<and> find_pattern_matches ''AAAA'' ''AA'' = [0, 1, 2]"
proof -
  have deg: "pattern = [] \<or> sequence = [] \<or> length pattern > length sequence
            \<longrightarrow> find_pattern_matches sequence pattern = []"
    by (simp add: find_pattern_matches_def)
  have pos: "pattern \<noteq> [] \<longrightarrow> find_pattern_matches sequence pattern
            = map int (filter (occurs_at sequence pattern) [0 ..< length sequence])"
    using assms by (simp add: serial_small)
  have asc: "sorted_wrt (<) (find_pattern_matches sequence pattern)"
    using assms by (rule serial_ascending)
  have ovl: "find_pattern_matches ''AAAA'' ''AA'' = [0, 1, 2]" by code_simp
  show ?thesis using deg pos asc ovl by blast
qed

theorem find_pattern_matches_positions_witness:
  "length ''GATTACA'' - length ''A'' < (2::nat) ^ 31
   \<and> find_pattern_matches ''GATTACA'' ''A''
       = map int (filter (occurs_at ''GATTACA'' ''A'') [0 ..< length ''GATTACA''])
   \<and> sorted_wrt (<) (find_pattern_matches ''GATTACA'' ''A'')
   \<and> find_pattern_matches ''GATTACA'' ''A'' = [1, 4, 6]"
proof -
  have a: "length ''GATTACA'' - length ''A'' < (2::nat) ^ 31" by simp
  have b: "''A'' \<noteq> []" by simp
  have c: "find_pattern_matches ''GATTACA'' ''A'' = [1, 4, 6]" by code_simp
  show ?thesis
    using find_pattern_matches_positions [OF a] a b c by blast
qed

text \<open>
  Claim C1, amended: for every sequence and pattern whose start offsets all fit the result
  type (\<open>|S| - |P| < 2^31\<close>) and every thread count in \<open>{1, 2, 3, 4, 8}\<close>, the parallel
  search returns the list that the serial search returns, which is sorted ascending; this
  includes the degenerate inputs, on which both are empty.
\<close>

theorem parallel_matches_serial:
  assumes "length sequence - length pattern < 2 ^ 31" "num_threads \<in> {1, 2, 3, 4, 8}"
  shows "find_pattern_matches_parallel sequence pattern num_threads
           = Inr (find_pattern_matches sequence pattern)
       \<and> sorted (find_pattern_matches sequence pattern)"
proof -
  have "sorted_wrt (<) (find_pattern_matches sequence pattern)"
    using assms(1) by (rule serial_ascending)
  then have srt: "sorted (find_pattern_matches sequence pattern)"
    by (rule strict_sorted_imp_sorted)
  have k: "1 \<le> num_threads" "num_threads < 2 ^ 31" using assms(2) by auto
  show ?thesis
  proof (cases "pattern \<noteq> [] \<and> length pattern \<le> length sequence")
    case True
    then show ?thesis
      using k srt by (simp add: parallel_characterisation sort_key_id_if_sorted)
  next
    case False
    then show ?thesis
      by (auto simp: find_pattern_matches_parallel_def find_pattern_matches_def)
  qed
qed

theorem parallel_matches_serial_witness:
  "length ''GATTACA'' - length ''A'' < (2::nat) ^ 31 \<and> (3::int) \<in> {1, 2, 3, 4, 8}
   \<and> find_pattern_matches_parallel ''GATTACA'' ''A'' 3 = Inr (find_pattern_matches ''GATTACA'' ''A'')
   \<and> find_pattern_matches_parallel ''GATTACA'' ''A'' 3 = Inr [1, 4, 6]"
proof -
  have a: "length ''GATTACA'' - length ''A'' < (2::nat) ^ 31" by simp
  have b: "(3::int) \<in> {1, 2, 3, 4, 8}" by simp
  have c: "find_pattern_matches ''GATTACA'' ''A'' = [1, 4, 6]" by code_simp
  show ?thesis
    using parallel_matches_serial [OF a b] a b c by simp
qed

text \<open>
  Claim C10: on a non-degenerate input the divisor of the chunk size is \<open>num_threads\<close>
  converted to \<^verbatim>\<open>size_t\<close>, unguarded. The divisor is not zero and the chunks cover every
  start offset exactly once (their offsets, in order, are \<open>0, \<dots>, search_len - 1\<close>) exactly
  when \<open>num_threads \<ge> 1\<close>; with \<open>num_threads = 0\<close> the divisor is zero; with a negative
  \<open>num_threads\<close> no worker is created, and the result is empty.
\<close>

theorem parallel_thread_count:
  assumes "pattern \<noteq> []" "length pattern \<le> length sequence" "is_int32 num_threads"
  shows "((size_t_of_int num_threads \<noteq> 0
           \<and> offsets (spawn num_threads (length sequence - length pattern + 1)
                ((length sequence - length pattern + 1) div size_t_of_int num_threads) 0 [])
              = [0 ..< length sequence - length pattern + 1])
          \<longleftrightarrow> 1 \<le> num_threads)
       \<and> (num_threads = 0 \<longrightarrow> size_t_of_int num_threads = 0
            \<and> find_pattern_matches_parallel sequence pattern num_threads = Inl Division_by_zero)
       \<and> (num_threads < 0 \<longrightarrow>
            spawn num_threads (length sequence - length pattern + 1)
                ((length sequence - length pattern + 1) div size_t_of_int num_threads) 0 [] = []
            \<and> find_pattern_matches_parallel sequence pattern num_threads = Inr [])"
proof -
  let ?L = "length sequence - length pattern + 1"
  from assms have nd: "sequence \<noteq> []" by auto
  have pos: "size_t_of_int num_threads \<noteq> 0
      \<and> offsets (spawn num_threads ?L (?L div size_t_of_int num_threads) 0 []) = [0 ..< ?L]"
    if "1 \<le> num_threads"
    using that assms(3) by (simp add: is_int32_def size_t_of_int_pos spawn_covers)
  have zero: "size_t_of_int 0 = 0" by (simp add: size_t_of_int_def)
  have neg: "size_t_of_int num_threads \<noteq> 0" if "num_threads < 0"
  proof -
    have lo: "- (2 ^ 64) < num_threads" using assms(3) by (simp add: is_int32_def)
    have "num_threads mod 2 ^ 64 = (num_threads + 2 ^ 64) mod 2 ^ 64" by simp
    also have "\<dots> = num_threads + 2 ^ 64"
      using lo that by (intro mod_pos_pos_trivial) simp_all
    finally show ?thesis
      using lo by (simp add: size_t_of_int_def)
  qed
  have none: "spawn num_threads L c 0 [] = []" if "num_threads \<le> 0" for L c
    using that by (simp add: spawn_none)
  have nocover: "offsets (spawn num_threads ?L c 0 []) \<noteq> [0 ..< ?L]" if "num_threads \<le> 0" for c
    using that by (simp add: none offsets_def)
  have c1: "(size_t_of_int num_threads \<noteq> 0
           \<and> offsets (spawn num_threads ?L (?L div size_t_of_int num_threads) 0 []) = [0 ..< ?L])
          \<longleftrightarrow> 1 \<le> num_threads"
    using pos nocover by (cases "1 \<le> num_threads") auto
  have c2: "num_threads = 0 \<longrightarrow> size_t_of_int num_threads = 0
            \<and> find_pattern_matches_parallel sequence pattern num_threads = Inl Division_by_zero"
    using assms nd zero by (simp add: find_pattern_matches_parallel_def)
  have c3: "num_threads < 0 \<longrightarrow>
            spawn num_threads ?L (?L div size_t_of_int num_threads) 0 [] = []
            \<and> find_pattern_matches_parallel sequence pattern num_threads = Inr []"
    using assms nd neg none by (auto simp: find_pattern_matches_parallel_def Let_def)
  show ?thesis using c1 c2 c3 by blast
qed

theorem parallel_thread_count_witness:
  "''AA'' \<noteq> [] \<and> length ''AA'' \<le> length ''AAAAA'' \<and> is_int32 3
   \<and> size_t_of_int 3 \<noteq> 0
   \<and> offsets (spawn 3 (length ''AAAAA'' - length ''AA'' + 1)
         ((length ''AAAAA'' - length ''AA'' + 1) div size_t_of_int 3) 0 [])
       = [0 ..< length ''AAAAA'' - length ''AA'' + 1]
   \<and> spawn 3 4 (4 div size_t_of_int 3) 0 [] = [(0, 1), (1, 2), (2, 4)]"
proof -
  have a: "''AA'' \<noteq> []" and b: "length ''AA'' \<le> length ''AAAAA''" and c: "is_int32 3"
    by (simp_all add: is_int32_def)
  have d: "spawn 3 4 (4 div size_t_of_int 3) 0 [] = [(0, 1), (1, 2), (2, 4)]"
    by code_simp
  have e: "(1::int) \<le> 3" by simp
  show ?thesis
    using parallel_thread_count [OF a b c] a b c d e by blast
qed

section \<open>Properties of the oracle builder\<close>

lemma size_t_of_int_nonneg: "0 \<le> k \<Longrightarrow> is_int32 k \<Longrightarrow> size_t_of_int k = nat k"
  by (simp add: size_t_of_int_def is_int32_def)

lemma size_t_of_int_neg:
  assumes "k < 0" "is_int32 k"
  shows "2 ^ 31 \<le> size_t_of_int k"
proof -
  have lo: "- (2 ^ 31) \<le> k" using assms(2) by (simp add: is_int32_def)
  have "k mod 2 ^ 64 = (k + 2 ^ 64) mod 2 ^ 64" by simp
  also have "\<dots> = k + 2 ^ 64"
    using lo assms(1) by (intro mod_pos_pos_trivial) simp_all
  finally have "size_t_of_int k = nat (k + 2 ^ 64)" by (simp add: size_t_of_int_def)
  moreover have "(2::int) ^ 31 \<le> k + 2 ^ 64" using lo by simp
  ultimately show ?thesis by (simp add: le_nat_iff)
qed

lemma mark_ok:
  assumes "\<forall>m \<in> set ms. 0 \<le> m \<and> is_int32 m" "length d = nat N"
  shows "\<exists>d'. mark ms N d = Inr d' \<and> length d' = nat N
           \<and> (\<forall>i < nat N. d' ! i = (if int i \<in> set ms then Complex (- 1) 0 else d ! i))"
  using assms
proof (induction ms arbitrary: d)
  case Nil
  then show ?case by simp
next
  case (Cons m ms)
  then have m: "0 \<le> m" "is_int32 m" by simp_all
  then have sz: "size_t_of_int m = nat m" by (simp add: size_t_of_int_nonneg)
  show ?case
  proof (cases "m < N")
    case False
    from Cons.IH [of d] Cons.prems obtain d' where d':
      "mark ms N d = Inr d'" "length d' = nat N"
      "\<forall>i < nat N. d' ! i = (if int i \<in> set ms then Complex (- 1) 0 else d ! i)"
      by auto
    have "int i \<noteq> m" if "i < nat N" for i using that False by auto
    with d' False show ?thesis by auto
  next
    case True
    then have inb: "nat m < length d" using m Cons.prems by auto
    let ?d = "d[nat m := Complex (- 1) 0]"
    from Cons.IH [of ?d] Cons.prems obtain d' where d':
      "mark ms N ?d = Inr d'" "length d' = nat N"
      "\<forall>i < nat N. d' ! i = (if int i \<in> set ms then Complex (- 1) 0 else ?d ! i)"
      by auto
    have "d' ! i = (if int i \<in> set (m # ms) then Complex (- 1) 0 else d ! i)" if "i < nat N" for i
    proof (cases "int i = m")
      case True
      then have "i = nat m" by auto
      with d'(3) that inb True show ?thesis by auto
    next
      case False
      then have "i \<noteq> nat m" using m by auto
      with d'(3) that False show ?thesis by auto
    qed
    with d' True inb sz show ?thesis by auto
  qed
qed

lemma mark_out_of_bounds:
  assumes "\<forall>m \<in> set ms. is_int32 m" "length d = nat N" "0 \<le> N" "is_int32 N"
  shows "(mark ms N d = Inl Out_of_bounds) = (\<exists>m \<in> set ms. m < 0)"
  using assms
proof (induction ms arbitrary: d)
  case Nil
  show ?case by simp
next
  case (Cons m ms)
  show ?case
  proof (cases "m < 0")
    case True
    then have "2 ^ 31 \<le> size_t_of_int m"
      using Cons.prems size_t_of_int_neg [of m] by simp
    moreover have "length d < 2 ^ 31"
      using Cons.prems by (simp add: is_int32_def nat_less_iff)
    ultimately have "\<not> size_t_of_int m < length d" by simp
    then show ?thesis using True Cons.prems by auto
  next
    case False
    then have sz: "size_t_of_int m = nat m"
      using Cons.prems by (simp add: size_t_of_int_nonneg)
    show ?thesis
    proof (cases "m < N")
      case True
      then have "nat m < length d" using False Cons.prems by auto
      then show ?thesis
        using True False sz Cons.prems Cons.IH [of "d[nat m := Complex (- 1) 0]"] by simp
    next
      case nlt: False
      then show ?thesis using False Cons.prems Cons.IH [of d] by simp
    qed
  qed
qed

lemma mark_ignores_large:
  "mark (filter (\<lambda>m. m < N) ms) N d = mark ms N d"
  by (induction ms arbitrary: d) simp_all

lemma count_marked:
  assumes "\<forall>m \<in> set ms. 0 \<le> m" "0 \<le> N"
  shows "card {i. i < nat N \<and> int i \<in> set ms} = card {m \<in> set ms. m < N}"
proof -
  let ?A = "{i. i < nat N \<and> int i \<in> set ms}"
  have "int ` ?A = {m \<in> set ms. m < N}"
  proof (intro equalityI subsetI)
    fix m assume "m \<in> {m \<in> set ms. m < N}"
    then have m: "m \<in> set ms" "m < N" by simp_all
    with assms have "0 \<le> m" by blast
    with m have "nat m \<in> ?A" and "m = int (nat m)"
      by simp_all
    then show "m \<in> int ` ?A" by (rule rev_image_eqI)
  next
    fix m assume "m \<in> int ` ?A"
    then obtain i where "i \<in> ?A" "m = int i" by (rule imageE)
    then show "m \<in> {m \<in> set ms. m < N}" using assms(2) by auto
  qed
  moreover have "card (int ` ?A) = card ?A"
    by (rule card_image) (simp add: inj_on_def)
  ultimately show ?thesis by simp
qed

text \<open>
  Claim C3, amended: for every \<open>database_size \<ge> 0\<close> and every list of non-negative match
  positions, \<open>build_oracle_diagonal\<close> returns a vector of exactly \<open>database_size\<close> complex
  numbers whose entry at a position is \<open>-1\<close> (imaginary part \<open>0\<close>) when the position occurs in
  the list and \<open>+1\<close> (imaginary part \<open>0\<close>) otherwise; positions not below
  \<open>database_size\<close> are ignored, and the number of entries equal to \<open>-1\<close> is the number of
  distinct positions of the list below \<open>database_size\<close>.
\<close>

theorem build_oracle_diagonal_entries:
  assumes "0 \<le> database_size" "is_int32 database_size"
    and "\<forall>m \<in> set matches. 0 \<le> m \<and> is_int32 m"
  shows "\<exists>diagonal. build_oracle_diagonal matches database_size = Inr diagonal
           \<and> length diagonal = nat database_size
           \<and> (\<forall>i < nat database_size.
                 diagonal ! i = (if int i \<in> set matches then Complex (- 1) 0 else Complex 1 0))
           \<and> length (filter (\<lambda>z. z = Complex (- 1) 0) diagonal)
               = card {m \<in> set matches. m < database_size}"
proof -
  let ?N = "nat database_size"
  from mark_ok [OF assms(3), of "replicate ?N (Complex 1 0)" database_size]
  obtain d where d: "mark matches database_size (replicate ?N (Complex 1 0)) = Inr d"
    "length d = ?N"
    "\<forall>i < ?N. d ! i = (if int i \<in> set matches then Complex (- 1) 0 else Complex 1 0)"
    by auto
  have "length (filter (\<lambda>z. z = Complex (- 1) 0) d)
          = card {i. i < length d \<and> d ! i = Complex (- 1) 0}"
    by (rule length_filter_conv_card)
  also have "{i. i < length d \<and> d ! i = Complex (- 1) 0} = {i. i < ?N \<and> int i \<in> set matches}"
    using d(2,3) by (auto split: if_splits)
  also have "card \<dots> = card {m \<in> set matches. m < database_size}"
    using assms by (intro count_marked) auto
  finally have "length (filter (\<lambda>z. z = Complex (- 1) 0) d)
          = card {m \<in> set matches. m < database_size}" .
  with d assms(1) show ?thesis
    by (auto simp: build_oracle_diagonal_def)
qed

lemma build_oracle_diagonal_example: "build_oracle_diagonal [1, 5, 2] 4 = Inr [Complex 1 0, Complex (- 1) 0, Complex (- 1) 0, Complex 1 0]"
  by code_simp

theorem build_oracle_diagonal_entries_witness:
  "\<exists>diagonal. build_oracle_diagonal [1, 5, 2] 4 = Inr diagonal
     \<and> diagonal = [Complex 1 0, Complex (- 1) 0, Complex (- 1) 0, Complex 1 0]
     \<and> length diagonal = nat 4
     \<and> length (filter (\<lambda>z. z = Complex (- 1) 0) diagonal) = card {m \<in> set [1, 5, 2]. m < (4::int)}"
proof -
  have a: "(0::int) \<le> 4" and b: "is_int32 4"
    and c: "\<forall>m \<in> set [1, 5, 2]. 0 \<le> m \<and> is_int32 m"
    by (simp_all add: is_int32_def)
  show ?thesis
    using build_oracle_diagonal_entries [OF a b c] build_oracle_diagonal_example by auto
qed

text \<open>
  Claim C3 as stated, for every match list and every \<open>database_size\<close>, fails on a negative
  match position, which passes the guard and is written outside the vector, and on a
  negative \<open>database_size\<close>, for which no vector is built.
\<close>

theorem build_oracle_diagonal_negative:
  "build_oracle_diagonal [- 1] 4 = Inl Out_of_bounds
   \<and> build_oracle_diagonal [] (- 1) = Inl Length_error"
  by (simp add: build_oracle_diagonal_def size_t_of_int_def)

text \<open>
  Claim C9: the write is guarded by \<open>match < database_size\<close> alone. For a vector of
  \<open>database_size \<ge> 0\<close> entries, no access is out of bounds exactly when no match position is
  negative; when none is, a vector is returned; and the positions not below
  \<open>database_size\<close> are ignored (dropping them changes nothing), which a negative position is
  not.
\<close>

theorem build_oracle_diagonal_guard:
  assumes "0 \<le> database_size" "is_int32 database_size"
    and "\<forall>m \<in> set matches. is_int32 m"
  shows "(build_oracle_diagonal matches database_size \<noteq> Inl Out_of_bounds
            \<longleftrightarrow> (\<forall>m \<in> set matches. 0 \<le> m))
       \<and> ((\<forall>m \<in> set matches. 0 \<le> m)
            \<longrightarrow> (\<exists>diagonal. build_oracle_diagonal matches database_size = Inr diagonal))
       \<and> build_oracle_diagonal (filter (\<lambda>m. m < database_size) matches) database_size
           = build_oracle_diagonal matches database_size"
proof -
  let ?d = "replicate (nat database_size) (Complex 1 0)"
  have "(mark matches database_size ?d = Inl Out_of_bounds) = (\<exists>m \<in> set matches. m < 0)"
    using assms by (intro mark_out_of_bounds) simp_all
  then have "(mark matches database_size ?d \<noteq> Inl Out_of_bounds) = (\<forall>m \<in> set matches. 0 \<le> m)"
    by (simp add: not_less)
  then have a: "build_oracle_diagonal matches database_size \<noteq> Inl Out_of_bounds
            \<longleftrightarrow> (\<forall>m \<in> set matches. 0 \<le> m)"
    using assms(1) by (simp add: build_oracle_diagonal_def)
  have b: "\<exists>diagonal. build_oracle_diagonal matches database_size = Inr diagonal"
    if "\<forall>m \<in> set matches. 0 \<le> m"
  proof -
    from that assms(3) have "\<forall>m \<in> set matches. 0 \<le> m \<and> is_int32 m" by simp
    from mark_ok [OF this, of ?d database_size] show ?thesis
      using assms(1) by (auto simp: build_oracle_diagonal_def)
  qed
  have c: "build_oracle_diagonal (filter (\<lambda>m. m < database_size) matches) database_size
           = build_oracle_diagonal matches database_size"
    by (simp add: build_oracle_diagonal_def mark_ignores_large)
  show ?thesis using a b c by blast
qed

theorem build_oracle_diagonal_guard_witness:
  "build_oracle_diagonal [1, 5, 2] 4 \<noteq> Inl Out_of_bounds
   \<and> (\<exists>diagonal. build_oracle_diagonal [1, 5, 2] 4 = Inr diagonal)
   \<and> build_oracle_diagonal (filter (\<lambda>m. m < 4) [1, 5, 2]) 4 = build_oracle_diagonal [1, 5, 2] 4"
proof -
  have a: "(0::int) \<le> 4" and b: "is_int32 4"
    and c: "\<forall>m \<in> set [1, 5, 2]. is_int32 m"
    and d: "\<forall>m \<in> set [1, 5, 2]. (0::int) \<le> m"
    by (simp_all add: is_int32_def)
  show ?thesis
    using build_oracle_diagonal_guard [OF a b c] d by blast
qed

section \<open>Properties of the position encoder\<close>

lemma shifted_bit: "0 \<le> pos \<Longrightarrow> (drop_bit b pos AND 1 \<noteq> 0) = odd (nat pos div 2 ^ b)"
proof -
  assume "0 \<le> pos"
  then obtain n where n: "pos = int n" by (metis nat_0_le)
  have "(drop_bit b pos AND 1 \<noteq> 0) = odd (drop_bit b pos)"
    by (simp add: and_one_eq odd_iff_mod_2_eq_one)
  also have "\<dots> = odd (int n div 2 ^ b)"
    by (simp add: n drop_bit_eq_div)
  also have "int n div 2 ^ b = int (n div 2 ^ b)"
    by (simp add: zdiv_int)
  also have "odd (int (n div 2 ^ b)) = odd (n div 2 ^ b)"
    by simp
  finally show ?thesis by (simp add: n)
qed

lemma bit_loop_expansion:
  assumes "0 \<le> pos" "w \<le> 32"
  shows "bit_loop pos (int w - 1) acc = Inr (acc @ binary_expansion w (nat pos))"
  using assms(2)
proof (induction w arbitrary: acc)
  case 0
  show ?case by (subst bit_loop.simps) (simp add: binary_expansion_def)
next
  case (Suc w)
  let ?c = "if odd (nat pos div 2 ^ w) then CHR ''1'' else CHR ''0''"
  have "bit_loop pos (int (Suc w) - 1) acc = bit_loop pos (int w - 1) (acc @ [?c])"
    by (subst bit_loop.simps) (use Suc.prems assms(1) in \<open>simp add: shifted_bit\<close>)
  also have "\<dots> = Inr ((acc @ [?c]) @ binary_expansion w (nat pos))"
    using Suc.prems by (intro Suc.IH) simp
  finally show ?case by (simp add: binary_expansion_def)
qed

lemma bit_loop_wide: "32 \<le> b \<Longrightarrow> bit_loop pos b binary = Inl Undefined_shift"
  by (subst bit_loop.simps) simp

lemma pos_loop_expansion:
  assumes "0 \<le> pos" "0 \<le> n_qubits" "n_qubits \<le> 32"
  shows "pos_loop num_candidates n_qubits pos encodings
           = Inr (encodings @ map (binary_expansion (nat n_qubits)) [nat pos ..< nat num_candidates])"
  using assms
proof (induction num_candidates n_qubits pos encodings rule: pos_loop.induct)
  case (1 num_candidates n_qubits pos encodings)
  show ?case
  proof (cases "pos < num_candidates")
    case False
    then show ?thesis using "1.prems" by (subst pos_loop.simps) simp
  next
    case True
    have w: "nat n_qubits \<le> 32" "int (nat n_qubits) = n_qubits" using "1.prems" by simp_all
    have bl: "bit_loop pos (n_qubits - 1) [] = Inr (binary_expansion (nat n_qubits) (nat pos))"
      using bit_loop_expansion [OF "1.prems"(1) w(1), of "[]"] w(2) by simp
    have upt: "[nat pos ..< nat num_candidates] = nat pos # [nat (pos + 1) ..< nat num_candidates]"
      using True "1.prems" by (simp add: upt_conv_Cons nat_add_distrib)
    have "pos_loop num_candidates n_qubits pos encodings
            = pos_loop num_candidates n_qubits (pos + 1)
                (encodings @ [binary_expansion (nat n_qubits) (nat pos)])"
      by (subst pos_loop.simps) (use True "1.prems" bl in simp)
    also have "\<dots> = Inr ((encodings @ [binary_expansion (nat n_qubits) (nat pos)])
                 @ map (binary_expansion (nat n_qubits)) [nat (pos + 1) ..< nat num_candidates])"
      using True "1.prems" bl by (intro "1.IH") simp_all
    finally show ?thesis by (simp add: upt)
  qed
qed

lemma encode_positions_expansion:
  assumes "0 \<le> num_candidates" "0 \<le> n_qubits" "n_qubits \<le> 32"
  shows "encode_positions num_candidates n_qubits
           = Inr (map (binary_expansion (nat n_qubits)) [0 ..< nat num_candidates])"
  using assms by (simp add: encode_positions_def pos_loop_expansion)

lemma foldl_parse:
  fixes a :: nat
  defines "f \<equiv> \<lambda>acc c. 2 * acc + (if c = CHR ''1'' then 1 else (0::nat))"
  shows "foldl f a s = a * 2 ^ length s + foldl f 0 s"
proof (induction s arbitrary: a)
  case Nil
  show ?case by simp
next
  case (Cons c s)
  have "foldl f a (c # s) = foldl f (f a c) s" by simp
  also have "\<dots> = f a c * 2 ^ length s + foldl f 0 s" by (rule Cons.IH)
  also have "f a c = 2 * a + f 0 c" by (simp add: f_def)
  also have "(2 * a + f 0 c) * 2 ^ length s + foldl f 0 s
               = a * 2 ^ length (c # s) + (f 0 c * 2 ^ length s + foldl f 0 s)"
    by (simp add: algebra_simps)
  also have "f 0 c * 2 ^ length s + foldl f 0 s = foldl f (f 0 c) s" by (rule Cons.IH [symmetric])
  also have "\<dots> = foldl f 0 (c # s)" by simp
  finally show ?case .
qed

lemma parse_binary_expansion: "parse_binary (binary_expansion w i) = i mod 2 ^ w"
proof (induction w)
  case 0
  show ?case by (simp add: parse_binary_def binary_expansion_def)
next
  case (Suc w)
  let ?d = "if odd (i div 2 ^ w) then 1 else (0::nat)"
  have d: "?d = i div 2 ^ w mod 2" by (simp add: odd_iff_mod_2_eq_one)
  have "binary_expansion (Suc w) i
          = (if odd (i div 2 ^ w) then CHR ''1'' else CHR ''0'') # binary_expansion w i"
    by (simp add: binary_expansion_def)
  then have "parse_binary (binary_expansion (Suc w) i)
          = ?d * 2 ^ length (binary_expansion w i) + parse_binary (binary_expansion w i)"
    unfolding parse_binary_def by (simp add: foldl_parse [of "Suc 0"])
  also have "length (binary_expansion w i) = w" by (simp add: binary_expansion_def)
  also have "?d * 2 ^ w + parse_binary (binary_expansion w i)
          = 2 ^ w * (i div 2 ^ w mod 2) + i mod 2 ^ w"
    using Suc.IH d by simp
  also have "\<dots> = i mod (2 ^ w * 2)"
    by (rule mod_mult2_eq [symmetric])
  also have "(2::nat) ^ w * 2 = 2 ^ Suc w" by simp
  finally show ?case .
qed

text \<open>
  Claim C7 at \<open>num_candidates = 2\<close>, \<open>n_qubits = 33\<close>: the first character of the first
  string is computed as \<^verbatim>\<open>(0 >> 32) & 1\<close>, a shift by the width of \<^verbatim>\<open>int\<close>. The strings
  that the claim describes are returned for \<open>n_qubits \<le> 32\<close> (lemma
  \<open>encode_positions_expansion\<close>), not beyond.
\<close>

theorem encode_positions_wide: "encode_positions 2 33 = Inl Undefined_shift"
  by (simp add: encode_positions_def pos_loop.simps [of 2 33 0] bit_loop_wide)

lemma int32_power: "is_int32 (2 ^ n) \<Longrightarrow> n < 31"
proof -
  assume "is_int32 (2 ^ n)"
  then have "(2::int) ^ n < 2 ^ 31" by (simp add: is_int32_def)
  then show "n < 31" by (simp only: power_strict_increasing_iff [of "2::int"] one_less_numeral_iff semiring_norm)
qed

text \<open>
  Claim C8: for every \<open>n\<close> such that \<open>2^n\<close> is an \<^verbatim>\<open>int\<close> (the first argument of
  \<open>encode_positions\<close>) and every \<open>i < 2^n\<close>, the string at index \<open>i\<close> of
  \<open>encode_positions(2^n, n)\<close>, read as an unsigned binary numeral, is \<open>i\<close>.
\<close>

theorem encode_positions_round_trip:
  assumes "is_int32 (2 ^ n)" "i < 2 ^ n"
  shows "\<exists>encodings. encode_positions (2 ^ n) (int n) = Inr encodings
           \<and> length encodings = 2 ^ n
           \<and> parse_binary (encodings ! i) = i"
proof -
  have n: "n < 31" using assms(1) by (rule int32_power)
  have nat2: "nat (2 ^ n) = 2 ^ n" by (simp add: nat_power_eq)
  have "encode_positions (2 ^ n) (int n) = Inr (map (binary_expansion n) [0 ..< 2 ^ n])"
    using n encode_positions_expansion [of "2 ^ n" "int n"] by (simp add: nat2)
  moreover have "parse_binary (map (binary_expansion n) [0 ..< 2 ^ n] ! i) = i"
    using assms(2) by (simp add: parse_binary_expansion)
  ultimately show ?thesis by simp
qed

theorem encode_positions_round_trip_witness:
  "is_int32 (2 ^ 3) \<and> (5::nat) < 2 ^ 3
   \<and> encode_positions (2 ^ 3) (int 3)
       = Inr [''000'', ''001'', ''010'', ''011'', ''100'', ''101'', ''110'', ''111'']
   \<and> (\<exists>encodings. encode_positions (2 ^ 3) (int 3) = Inr encodings
         \<and> length encodings = 2 ^ 3 \<and> parse_binary (encodings ! 5) = 5)"
proof -
  have a: "is_int32 (2 ^ 3)" by (simp add: is_int32_def)
  have b: "(5::nat) < 2 ^ 3" by simp
  have c: "encode_positions (2 ^ 3) (int 3)
    = Inr [''000'', ''001'', ''010'', ''011'', ''100'', ''101'', ''110'', ''111'']"
    by code_simp
  show ?thesis
    using encode_positions_round_trip [OF a b] a b c by blast
qed

section \<open>Properties of the statistics analyzer\<close>

lemma tally_eq:
  assumes "\<forall>(s, c) \<in> set counts. 0 \<le> c" "0 \<le> t" "t + sum_list (map snd counts) < 2 ^ 31"
  shows "tally counts t m = Inr (t + sum_list (map snd counts), Max (insert m (snd ` set counts)))"
  using assms
proof (induction counts arbitrary: t m)
  case Nil
  show ?case by simp
next
  case (Cons sc counts)
  obtain s c where sc: "sc = (s, c)" by (cases sc)
  have c: "0 \<le> c" using Cons.prems(1) sc by simp
  have nn: "0 \<le> sum_list (map snd counts)"
    using Cons.prems(1) by (intro sum_list_nonneg) auto
  have ok: "is_int32 (t + c)"
    using Cons.prems sc c nn by (simp add: is_int32_def)
  let ?m = "if c > m then c else m"
  have "tally (sc # counts) t m = tally counts (t + c) ?m"
    using ok sc by simp
  also have "\<dots> = Inr (t + c + sum_list (map snd counts), Max (insert ?m (snd ` set counts)))"
    using Cons.prems sc c by (intro Cons.IH) auto
  also have "Max (insert ?m (snd ` set counts)) = Max (insert m (snd ` set (sc # counts)))"
  proof -
    have fin: "finite (snd ` set counts)" by simp
    have "Max (insert m (insert c (snd ` set counts))) = max m (Max (insert c (snd ` set counts)))"
      by (rule Max_insert) (use fin in simp_all)
    also have "Max (insert c (snd ` set counts)) = (if snd ` set counts = {} then c else max c (Max (snd ` set counts)))"
      using fin by simp
    finally have l: "Max (insert m (snd ` set (sc # counts)))
        = max m (if snd ` set counts = {} then c else max c (Max (snd ` set counts)))"
      by (simp add: sc)
    have r: "Max (insert ?m (snd ` set counts)) = (if snd ` set counts = {} then ?m else max ?m (Max (snd ` set counts)))"
      using fin by simp
    show ?thesis unfolding l r by (auto simp: max_def)
  qed
  finally show ?case by (simp add: sc add.assoc)
qed

lemma ddiv_int_pos:
  "0 < b \<Longrightarrow> ddiv (double_of_int a) (double_of_int b)
     = Finite (round_double (real_of_int a / real_of_int b))"
  by (simp add: double_of_int_def)

lemma round_double_0: "round_double 0 = 0"
  by (simp add: round_double_def)

text \<open>
  Claim C5, amended: for every histogram of non-negative counts whose sum is an \<^verbatim>\<open>int\<close>
  (less than \<open>2^31\<close>) and every \<open>total_shots > 0\<close>, the report holds under
  \<open>success_probability\<close> the sum of all counts divided by \<open>total_shots\<close>, whatever
  \<open>expected_matches\<close> is, under \<open>max_amplitude\<close> the largest count divided by \<open>total_shots\<close>,
  and under \<open>num_unique_states\<close> the number of distinct outcome labels; the quotients are
  those of \<^verbatim>\<open>double\<close> division. For the empty histogram the four metrics are \<open>0\<close>.
\<close>

theorem analyze_measurement_statistics_report:
  assumes "distinct (map fst counts)"
    and "\<forall>(state, count) \<in> set counts. 0 \<le> count"
    and "sum_list (map snd counts) < 2 ^ 31"
    and "0 < total_shots"
  shows "\<exists>stats. analyze_measurement_statistics lg counts expected_matches total_shots = Inr stats
     \<and> stats ''success_probability''
         = Some (ddiv (double_of_int (sum_list (map snd counts))) (double_of_int total_shots))
     \<and> stats ''success_probability''
         = Some (Finite (round_double (real_of_int (sum_list (map snd counts)) / real_of_int total_shots)))
     \<and> (counts \<noteq> [] \<longrightarrow> stats ''max_amplitude''
         = Some (Finite (round_double (real_of_int (Max (snd ` set counts)) / real_of_int total_shots))))
     \<and> stats ''num_unique_states'' = Some (Finite (real (card (fst ` set counts))))
     \<and> (counts = [] \<longrightarrow> stats ''success_probability'' = Some (Finite 0)
           \<and> stats ''max_amplitude'' = Some (Finite 0)
           \<and> stats ''entropy'' = Some (Finite 0)
           \<and> stats ''num_unique_states'' = Some (Finite 0))"
proof -
  let ?sum = "sum_list (map snd counts)"
  let ?max = "Max (insert 0 (snd ` set counts))"
  have t: "tally counts 0 0 = Inr (?sum, ?max)"
    using tally_eq [of counts 0 0] assms(2,3) by simp
  define stats where "stats = Map.empty
            (''success_probability'' \<mapsto> ddiv (double_of_int ?sum) (double_of_int total_shots),
             ''max_amplitude'' \<mapsto> ddiv (double_of_int ?max) (double_of_int total_shots),
             ''entropy'' \<mapsto> calculate_shannon_entropy lg counts total_shots,
             ''num_unique_states'' \<mapsto> double_of_size (length counts))"
  have res: "analyze_measurement_statistics lg counts expected_matches total_shots = Inr stats"
    by (simp add: analyze_measurement_statistics_def t stats_def)
  have sp: "stats ''success_probability'' = Some (ddiv (double_of_int ?sum) (double_of_int total_shots))"
    by (simp add: stats_def)
  have sp': "ddiv (double_of_int ?sum) (double_of_int total_shots)
      = Finite (round_double (real_of_int ?sum / real_of_int total_shots))"
    using assms(4) by (rule ddiv_int_pos)
  have ma: "stats ''max_amplitude''
      = Some (Finite (round_double (real_of_int ?max / real_of_int total_shots)))"
    using assms(4) by (simp add: stats_def ddiv_int_pos)
  have mx: "?max = Max (snd ` set counts)" if "counts \<noteq> []"
  proof -
    from that obtain sc where sc: "sc \<in> set counts" by (cases counts) auto
    then have "0 \<le> snd sc" using assms(2) by auto
    also have "snd sc \<le> Max (snd ` set counts)" using sc by simp
    finally have "0 \<le> Max (snd ` set counts)" .
    moreover have "Max (insert 0 (snd ` set counts)) = max 0 (Max (snd ` set counts))"
      using sc by (intro Max_insert) auto
    ultimately show ?thesis by simp
  qed
  have nu: "stats ''num_unique_states'' = Some (Finite (real (card (fst ` set counts))))"
  proof -
    have "card (fst ` set counts) = length counts"
      using assms(1) by (metis distinct_card length_map set_map)
    then show ?thesis by (simp add: stats_def double_of_size_def)
  qed
  have em: "stats ''success_probability'' = Some (Finite 0)
           \<and> stats ''max_amplitude'' = Some (Finite 0)
           \<and> stats ''entropy'' = Some (Finite 0)
           \<and> stats ''num_unique_states'' = Some (Finite 0)" if "counts = []"
    using that assms(4)
    by (simp add: stats_def ddiv_int_pos round_double_0 calculate_shannon_entropy_def
        double_of_size_def)
  show ?thesis
    using res sp sp' ma mx nu em by (intro exI [of _ stats]) simp
qed

theorem analyze_measurement_statistics_report_witness:
  "\<exists>stats. analyze_measurement_statistics (log 2) [(''000'', 40), (''111'', 60)] [] 100 = Inr stats
     \<and> stats ''success_probability'' = Some (ddiv (double_of_int 100) (double_of_int 100))
     \<and> stats ''max_amplitude'' = Some (Finite (round_double (real_of_int 60 / real_of_int 100)))
     \<and> stats ''num_unique_states'' = Some (Finite 2)"
proof -
  let ?counts = "[(''000'', 40::int), (''111'', 60)]"
  have a: "distinct (map fst ?counts)" by simp
  have b: "\<forall>(state, count) \<in> set ?counts. 0 \<le> count" by simp
  have c: "sum_list (map snd ?counts) < 2 ^ 31" by simp
  have d: "(0::int) < 100" by simp
  have e: "sum_list (map snd ?counts) = 100" by simp
  have f: "Max (snd ` set ?counts) = 60" by simp
  have g: "real (card (fst ` set ?counts)) = 2" by simp
  have h: "?counts \<noteq> []" by simp
  from analyze_measurement_statistics_report [OF a b c d, of "log 2" "[]"] obtain stats where
    "analyze_measurement_statistics (log 2) ?counts [] 100 = Inr stats"
    "stats ''success_probability''
       = Some (ddiv (double_of_int (sum_list (map snd ?counts))) (double_of_int 100))"
    "stats ''max_amplitude''
       = Some (Finite (round_double (real_of_int (Max (snd ` set ?counts)) / real_of_int 100)))"
    "stats ''num_unique_states'' = Some (Finite (real (card (fst ` set ?counts))))"
    using h by blast
  then show ?thesis unfolding e f g by blast
qed

text \<open>
  Claim C5 as stated, for every histogram, fails on the counts \<open>2147483647\<close> and \<open>1\<close>, whose
  sum is not an \<^verbatim>\<open>int\<close>, and on a histogram of negative counts, where \<open>max_count\<close> keeps
  its initial value \<open>0\<close>, which is no count of the histogram.
\<close>

theorem analyze_measurement_statistics_overflow:
  "analyze_measurement_statistics (log 2) [(''0'', 2147483647), (''1'', 1)] [] 2147483647
     = Inl Signed_overflow
   \<and> (case analyze_measurement_statistics (log 2) [(''0'', - 5)] [] 10 of
        Inl e \<Rightarrow> None | Inr stats \<Rightarrow> stats ''max_amplitude'') = Some (Finite 0)"
  by (simp add: analyze_measurement_statistics_def is_int32_def double_of_int_def round_double_0)

text \<open>
  Claim C4 at \<open>total_shots = 0\<close>: the call returns a report, never a failure. With the
  histogram \<open>{"00": 3}\<close> the report holds \<open>+Inf\<close>, \<open>+Inf\<close> and \<open>-Inf\<close>; with the empty
  histogram it holds \<open>NaN\<close> twice.
\<close>

theorem analyze_measurement_statistics_zero_shots:
  "analyze_measurement_statistics lg [(''00'', 3)] expected_matches 0
     = Inr (Map.empty
         (''success_probability'' \<mapsto> Inf_pos,
          ''max_amplitude'' \<mapsto> Inf_pos,
          ''entropy'' \<mapsto> Inf_neg,
          ''num_unique_states'' \<mapsto> Finite 1))
   \<and> analyze_measurement_statistics lg [] expected_matches 0
     = Inr (Map.empty
         (''success_probability'' \<mapsto> NaN,
          ''max_amplitude'' \<mapsto> NaN,
          ''entropy'' \<mapsto> Finite 0,
          ''num_unique_states'' \<mapsto> Finite 0))"
  by (simp add: analyze_measurement_statistics_def is_int32_def double_of_int_def
      double_of_size_def calculate_shannon_entropy_def)

section \<open>Properties of the iteration calculator\<close>

subsection \<open>Bounds of \<open>\<pi>\<close> to sixteen decimal places\<close>

lemma arctan_sum_bounds:
  assumes "0 \<le> x" "x \<le> 1"
  shows "arctan_sum x (2 * n) \<le> arctan x" and "arctan x \<le> arctan_sum x (2 * n + 1)"
proof -
  let ?a = "\<lambda>i. 1 / real (i * 2 + 1) * x ^ (i * 2 + 1)"
  have ax: "\<bar>x\<bar> \<le> 1" using assms by simp
  have zero: "?a \<longlonglongrightarrow> 0" using ax by (rule zeroseq_arctan_series)
  have pos: "0 \<le> ?a i" for i using assms by simp
  have mono: "?a (Suc i) \<le> ?a i" for i
  proof -
    have "x ^ (Suc i * 2 + 1) \<le> x ^ (i * 2 + 1)"
      using assms by (intro power_decreasing) simp_all
    moreover have "1 / real (Suc i * 2 + 1) \<le> 1 / real (i * 2 + 1)"
      by (intro divide_left_mono) simp_all
    ultimately show ?thesis
      using assms by (intro mult_mono) simp_all
  qed
  have series: "arctan x = (\<Sum>i. (- 1) ^ i * ?a i)" using ax by (rule arctan_series)
  show "arctan_sum x (2 * n) \<le> arctan x"
    unfolding series arctan_sum_def by (rule summable_Leibniz'(2) [OF zero pos mono])
  show "arctan x \<le> arctan_sum x (2 * n + 1)"
    unfolding series arctan_sum_def by (rule summable_Leibniz'(4) [OF zero pos mono])
qed

lemma arctan_sum_Suc:
  "arctan_sum x (Suc n) = arctan_sum x n + (- 1) ^ n * (1 / real (n * 2 + 1) * x ^ (n * 2 + 1))"
  by (simp add: arctan_sum_def)

lemma arctan_sum_0: "arctan_sum x 0 = 0"
  by (simp add: arctan_sum_def)

lemma pi_upper: "pi < 31415926535897934 / 10 ^ 16"
proof -
  have "arctan (1 / 5) \<le> arctan_sum (1 / 5) (2 * 5 + 1)"
    by (rule arctan_sum_bounds) simp_all
  also have "\<dots> < 19739555984988076189 / 10 ^ 20"
    by (simp add: eval_nat_numeral arctan_sum_Suc arctan_sum_0)
  finally have a: "arctan (1 / 5) < 19739555984988076189 / 10 ^ 20" .
  have "418407600207472386 / 10 ^ 20 < arctan_sum (1 / 239) (2 * 2)"
    by (simp add: eval_nat_numeral arctan_sum_Suc arctan_sum_0)
  also have "\<dots> \<le> arctan (1 / 239)"
    by (rule arctan_sum_bounds) simp_all
  finally have b: "418407600207472386 / 10 ^ 20 < arctan (1 / 239)" .
  have "pi = 16 * arctan (1 / 5) - 4 * arctan (1 / 239)"
    using machin by simp
  also have "\<dots> < 16 * (19739555984988076189 / 10 ^ 20) - 4 * (418407600207472386 / 10 ^ 20)"
    using a b by linarith
  also have "\<dots> < 31415926535897934 / 10 ^ 16" by simp
  finally show ?thesis .
qed

lemma pi_lower: "31415926535897932 / 10 ^ 16 < pi"
proof -
  have "19739555984988075824 / 10 ^ 20 < arctan_sum (1 / 5) (2 * 6)"
    by (simp add: eval_nat_numeral arctan_sum_Suc arctan_sum_0)
  also have "\<dots> \<le> arctan (1 / 5)"
    by (rule arctan_sum_bounds) simp_all
  finally have a: "19739555984988075824 / 10 ^ 20 < arctan (1 / 5)" .
  have "arctan (1 / 239) \<le> arctan_sum (1 / 239) (2 * 1 + 1)"
    by (rule arctan_sum_bounds) simp_all
  also have "\<dots> < 418407600207472708 / 10 ^ 20"
    by (simp add: eval_nat_numeral arctan_sum_Suc arctan_sum_0)
  finally have b: "arctan (1 / 239) < 418407600207472708 / 10 ^ 20" .
  have "31415926535897932 / 10 ^ 16
          < 16 * (19739555984988075824 / 10 ^ 20) - 4 * (418407600207472708 / 10 ^ 20 :: real)"
    by simp
  also have "\<dots> < 16 * arctan (1 / 5) - 4 * arctan (1 / 239)"
    using a b by linarith
  also have "\<dots> = pi"
    using machin by simp
  finally show ?thesis .
qed

subsection \<open>Evaluating the rounding\<close>

lemma round_double_eqI:
  assumes x: "0 < x"
    and lo: "2 ^ 52 \<le> x * 2 ^ k" and hi: "x * 2 ^ k < 2 ^ 53"
    and n: "\<bar>x * 2 ^ k - real_of_int n\<bar> < 1 / 2"
  shows "round_double x = real_of_int n / 2 ^ k"
proof -
  define m where "m = x * 2 ^ k"
  have m_pos: "0 < m" using x by (simp add: m_def)
  have xm: "x = m / 2 ^ k" by (simp add: m_def)
  have "log 2 x = log 2 m - real k"
    using m_pos by (simp add: xm log_divide log_nat_power)
  moreover have "52 \<le> log 2 m"
    using lo m_pos by (simp add: le_log_iff m_def)
  moreover have "log 2 m < 53"
    using hi m_pos by (simp add: log_less_iff m_def)
  ultimately have "\<lfloor>log 2 x\<rfloor> = 52 - int k"
    by (intro floor_unique) simp_all
  then have e: "\<lfloor>log 2 \<bar>x\<bar>\<rfloor> - 52 = - int k" using x by simp
  have p: "2 powr real_of_int (- int k) = 1 / 2 ^ k"
    by (simp add: powr_minus powr_realpow divide_simps)
  have scaled: "x / (1 / 2 ^ k) = m" by (simp add: m_def)
  have x0: "x \<noteq> 0" using x by simp
  have n': "\<bar>m - real_of_int n\<bar> < 1 / 2" using n by (simp add: m_def)
  have main: "(if m - real_of_int \<lfloor>m\<rfloor> < 1 / 2 \<or> (m - real_of_int \<lfloor>m\<rfloor> = 1 / 2 \<and> even \<lfloor>m\<rfloor>)
         then real_of_int \<lfloor>m\<rfloor> else real_of_int (\<lfloor>m\<rfloor> + 1)) = real_of_int n"
  proof (cases "real_of_int n \<le> m")
    case True
    then have "\<lfloor>m\<rfloor> = n" using n' by (intro floor_unique) linarith+
    then show ?thesis using n' True by simp
  next
    case False
    then have f: "\<lfloor>m\<rfloor> = n - 1" using n' by (intro floor_unique) (simp, linarith)+
    have "\<not> m - real_of_int (n - 1) < 1 / 2" "m - real_of_int (n - 1) \<noteq> 1 / 2"
      using n' False by (simp, linarith)+
    then show ?thesis using f by simp
  qed
  show ?thesis
    unfolding round_double_def Let_def e p scaled main using x0 by simp
qed


lemma round_double_sqrt_eqI:
  assumes n: "2 ^ 52 < n" "n < 2 ^ 53"
    and lo: "((real_of_int n - 1 / 2) / 2 ^ k)\<^sup>2 < y"
    and hi: "y < ((real_of_int n + 1 / 2) / 2 ^ k)\<^sup>2"
  shows "round_double (sqrt y) = real_of_int n / 2 ^ k"
proof -
  let ?a = "(real_of_int n - 1 / 2) / 2 ^ k" and ?b = "(real_of_int n + 1 / 2) / 2 ^ k"
  have n52: "(2::real) ^ 52 + 1 \<le> real_of_int n"
  proof -
    have "2 ^ 52 + 1 \<le> n" using n(1) by simp
    then have "real_of_int (2 ^ 52 + 1) \<le> real_of_int n" by (simp only: of_int_le_iff)
    then show ?thesis by simp
  qed
  have n53: "real_of_int n + 1 \<le> (2::real) ^ 53"
  proof -
    have "n + 1 \<le> 2 ^ 53" using n(2) by simp
    then have "real_of_int (n + 1) \<le> real_of_int (2 ^ 53)" by (simp only: of_int_le_iff)
    then show ?thesis by simp
  qed
  have a0: "0 \<le> ?a" using n52 by simp
  have b0: "0 \<le> ?b" using n52 by simp
  have "sqrt (?a\<^sup>2) < sqrt y" using lo by (simp only: real_sqrt_less_iff)
  then have "\<bar>?a\<bar> < sqrt y" by (simp only: real_sqrt_abs)
  then have a: "?a < sqrt y" by linarith
  have "sqrt y < sqrt (?b\<^sup>2)" using hi by (simp only: real_sqrt_less_iff)
  then have "sqrt y < \<bar>?b\<bar>" by (simp only: real_sqrt_abs)
  then have b: "sqrt y < ?b" using b0 by linarith
  have a': "real_of_int n - 1 / 2 < sqrt y * 2 ^ k"
    using a by (simp add: divide_simps)
  have b': "sqrt y * 2 ^ k < real_of_int n + 1 / 2"
    using b by (simp add: divide_simps)
  have pos: "0 < sqrt y" using a a0 by linarith
  show ?thesis
  proof (rule round_double_eqI [OF pos])
    show "2 ^ 52 \<le> sqrt y * 2 ^ k" using a' n52 by linarith
    show "sqrt y * 2 ^ k < 2 ^ 53" using b' n53 by linarith
    show "\<bar>sqrt y * 2 ^ k - real_of_int n\<bar> < 1 / 2" using a' b' by linarith
  qed
qed

lemma M_PI_eq: "M_PI = 7074237752028440 / 2 ^ 51"
  unfolding M_PI_def
  using round_double_eqI [of "314159265358979323846 / 10 ^ 20" 51 7074237752028440]
  by simp

lemma M_PI_4: "round_double (M_PI / 4) = 7074237752028440 / 2 ^ 53"
  using round_double_eqI [of "M_PI / 4" 53 7074237752028440]
  by (simp add: M_PI_eq)

subsection \<open>Two evaluations\<close>

lemma iterations_1024: "calculate_optimal_iterations 1024 1 = 25"
proof -
  have r: "round_double (real_of_int 1024 / real_of_int 1) = 1024"
    using round_double_eqI [of 1024 42 "2 ^ 52"] by simp
  have "sqrt 1024 = sqrt (32\<^sup>2)" by simp
  also have "\<dots> = 32" by (simp only: real_sqrt_abs abs_numeral)
  finally have sq: "sqrt 1024 = 32" .
  have s: "round_double (sqrt 1024) = 32"
    unfolding sq using round_double_eqI [of 32 47 "2 ^ 52"] by simp
  have p: "round_double (7074237752028440 / 2 ^ 53 * 32) = 7074237752028440 / 2 ^ 48"
    using round_double_eqI [of "7074237752028440 / 2 ^ 53 * 32" 48 7074237752028440] by simp
  have fl: "\<lfloor>7074237752028440 / 2 ^ 48 :: real\<rfloor> = 25" by simp
  show ?thesis
    unfolding calculate_optimal_iterations_def Let_def r s M_PI_4 p fl by simp
qed

lemma iterations_large_computed: "calculate_optimal_iterations 871437157 860074 = 25"
proof -
  have r: "round_double (real_of_int 871437157 / real_of_int 860074) = 8912305564382225 / 2 ^ 43"
    using round_double_eqI [of "871437157 / 860074" 43 8912305564382225] by simp
  have s: "round_double (sqrt (8912305564382225 / 2 ^ 43)) = 8959626780035404 / 2 ^ 48"
    using round_double_sqrt_eqI [of 8959626780035404 48 "8912305564382225 / 2 ^ 43"]
    by (simp add: power2_eq_square)
  have p: "round_double (7074237752028440 / 2 ^ 53 * (8959626780035404 / 2 ^ 48)) = 7036874417766400 / 2 ^ 48"
    using round_double_eqI [of "7074237752028440 / 2 ^ 53 * (8959626780035404 / 2 ^ 48)" 48 7036874417766400]
    by simp
  have fl: "\<lfloor>7036874417766400 / 2 ^ 48 :: real\<rfloor> = 25" by simp
  show ?thesis
    unfolding calculate_optimal_iterations_def Let_def r s M_PI_4 p fl by simp
qed

lemma iterations_large_formula: "optimal_iterations_formula 871437157 860074 = 24"
proof -
  let ?r = "871437157 / 860074 :: real"
  have "sqrt ?r < sqrt ((100 / (31415926535897934 / 10 ^ 16))\<^sup>2)"
    by (simp only: real_sqrt_less_iff) (simp add: power2_eq_square)
  then have "sqrt ?r < \<bar>100 / (31415926535897934 / 10 ^ 16)\<bar>"
    by (simp only: real_sqrt_abs)
  then have up: "sqrt ?r < 100 / (31415926535897934 / 10 ^ 16)"
    by simp
  have "sqrt (31\<^sup>2) < sqrt ?r"
    by (simp only: real_sqrt_less_iff) simp
  then have lo: "31 < sqrt ?r" by (simp only: real_sqrt_abs abs_numeral)
  have "pi / 4 * sqrt ?r < (31415926535897934 / 10 ^ 16) / 4 * sqrt ?r"
    using pi_upper lo by simp
  also have "\<dots> < (31415926535897934 / 10 ^ 16) / 4 * (100 / (31415926535897934 / 10 ^ 16))"
    using up by simp
  also have "\<dots> = 25" by simp
  finally have lt: "pi / 4 * sqrt ?r < 25" .
  have "(24::real) \<le> 3 / 4 * 32" by simp
  have "24 < (31415926535897932 / 10 ^ 16) / 4 * (31::real)" by simp
  also have "\<dots> < pi / 4 * 31" using pi_lower by simp
  also have "\<dots> < pi / 4 * sqrt ?r" using lo pi_gt_zero by simp
  finally have ge: "24 \<le> pi / 4 * sqrt ?r" by simp
  have "\<lfloor>pi / 4 * sqrt ?r\<rfloor> = 24"
    using lt ge by (intro floor_unique) simp_all
  then show ?thesis
    by (simp add: optimal_iterations_formula_def)
qed

subsection \<open>The rounding error of the computation\<close>

lemma round_double_error:
  assumes x: "0 < x"
  shows "\<bar>round_double x - x\<bar> \<le> x / 2 ^ 53"
proof -
  define e where "e = \<lfloor>log 2 \<bar>x\<bar>\<rfloor> - 52"
  define u where "u = 2 powr real_of_int e"
  define m where "m = x / u"
  define f where "f = \<lfloor>m\<rfloor>"
  define g where "g = (if m - real_of_int f < 1 / 2 \<or> (m - real_of_int f = 1 / 2 \<and> even f)
                       then real_of_int f else real_of_int (f + 1))"
  have u_pos: "0 < u" by (simp add: u_def)
  have rd: "round_double x = g * u"
    using x by (simp add: round_double_def Let_def e_def u_def m_def f_def g_def)
  have fm: "real_of_int f \<le> m" "m < real_of_int f + 1"
    unfolding f_def by linarith+
  have gm: "\<bar>g - m\<bar> \<le> 1 / 2"
    using fm by (auto simp: g_def)
  have "\<bar>round_double x - x\<bar> = \<bar>g - m\<bar> * u"
  proof -
    have "round_double x - x = (g - m) * u"
      using u_pos by (simp add: rd m_def algebra_simps)
    then show ?thesis using u_pos by (simp add: abs_mult)
  qed
  also have "\<dots> \<le> 1 / 2 * u"
    using gm u_pos by (intro mult_right_mono) simp_all
  also have "\<dots> \<le> x / 2 ^ 53"
  proof -
    have "real_of_int \<lfloor>log 2 x\<rfloor> \<le> log 2 x" by simp
    then have "2 powr real_of_int \<lfloor>log 2 x\<rfloor> \<le> 2 powr log 2 x"
      by (simp only: powr_le_cancel_iff [of 2] one_less_numeral_iff semiring_norm)
    then have "2 powr real_of_int \<lfloor>log 2 x\<rfloor> \<le> x" using x by simp
    moreover have "2 powr real_of_int \<lfloor>log 2 x\<rfloor> = u * 2 ^ 52"
    proof -
      have "real_of_int \<lfloor>log 2 x\<rfloor> = real_of_int e + 52" using x by (simp add: e_def)
      then have "2 powr real_of_int \<lfloor>log 2 x\<rfloor> = 2 powr real_of_int e * 2 powr 52"
        by (simp only: powr_add)
      then show ?thesis by (simp add: u_def)
    qed
    ultimately have "u * 2 ^ 52 \<le> x" by simp
    then show ?thesis by (simp add: field_simps)
  qed
  finally show ?thesis .
qed

lemma round_double_bounds:
  assumes "0 < x"
  shows "x * (1 - 1 / 2 ^ 53) \<le> round_double x" and "round_double x \<le> x * (1 + 1 / 2 ^ 53)"
proof -
  have d: "x * (1 - 1 / 2 ^ 53) = x - x / 2 ^ 53" "x * (1 + 1 / 2 ^ 53) = x + x / 2 ^ 53"
    by (simp_all add: algebra_simps)
  from round_double_error [OF assms]
  have "x - x / 2 ^ 53 \<le> round_double x" "round_double x \<le> x + x / 2 ^ 53"
    by linarith+
  then show "x * (1 - 1 / 2 ^ 53) \<le> round_double x" "round_double x \<le> x * (1 + 1 / 2 ^ 53)"
    unfolding d .
qed

lemma sqrt_scaled_bounds:
  assumes "0 < r" "r * (1 - 1 / 2 ^ 53) \<le> r'" "r' \<le> r * (1 + 1 / 2 ^ 53)"
  shows "sqrt r * (1 - 1 / 2 ^ 53) \<le> sqrt r'" and "sqrt r' \<le> sqrt r * (1 + 1 / 2 ^ 53)"
proof -
  let ?lo = "1 - 1 / 2 ^ 53 :: real" and ?hi = "1 + 1 / 2 ^ 53 :: real"
  have lo: "?lo \<le> sqrt ?lo"
  proof -
    have "?lo\<^sup>2 \<le> ?lo" by (simp add: power2_eq_square)
    then have "sqrt (?lo\<^sup>2) \<le> sqrt ?lo" by (simp only: real_sqrt_le_iff)
    then have "\<bar>?lo\<bar> \<le> sqrt ?lo" by (simp only: real_sqrt_abs)
    then show ?thesis by simp
  qed
  have hi: "sqrt ?hi \<le> ?hi"
  proof -
    have "?hi \<le> ?hi\<^sup>2" by (simp add: power2_eq_square)
    then have "sqrt ?hi \<le> sqrt (?hi\<^sup>2)" by (simp only: real_sqrt_le_iff)
    then have "sqrt ?hi \<le> \<bar>?hi\<bar>" by (simp only: real_sqrt_abs)
    then show ?thesis by simp
  qed
  have s0: "0 \<le> sqrt r" using assms(1) by simp
  have "sqrt r * ?lo \<le> sqrt r * sqrt ?lo" using lo s0 by (rule mult_left_mono)
  also have "\<dots> = sqrt (r * ?lo)" by (simp only: real_sqrt_mult)
  also have "\<dots> \<le> sqrt r'" using assms(2) by (simp only: real_sqrt_le_iff)
  finally show "sqrt r * ?lo \<le> sqrt r'" .
  have "sqrt r' \<le> sqrt (r * ?hi)" using assms(3) by (simp only: real_sqrt_le_iff)
  also have "\<dots> = sqrt r * sqrt ?hi" by (simp only: real_sqrt_mult)
  also have "\<dots> \<le> sqrt r * ?hi" using hi s0 by (rule mult_left_mono)
  finally show "sqrt r' \<le> sqrt r * ?hi" .
qed

lemma computed_value_close:
  assumes r: "0 < r" "r < 2 ^ 31"
  shows "\<bar>round_double (round_double (M_PI / 4) * round_double (sqrt (round_double r)))
          - pi / 4 * sqrt r\<bar> < 1"
proof -
  let ?lo = "1 - 1 / 2 ^ 53 :: real" and ?hi = "1 + 1 / 2 ^ 53 :: real"
  define c where "c = round_double (M_PI / 4)"
  define r' where "r' = round_double r"
  define s where "s = round_double (sqrt r')"
  define p where "p = round_double (c * s)"
  define v where "v = pi / 4 * sqrt r"
  have lo_pos: "0 < ?lo" by simp
  have r': "r * ?lo \<le> r'" "r' \<le> r * ?hi"
    unfolding r'_def using r(1) by (rule round_double_bounds)+
  have r'_pos: "0 < r'"
  proof -
    have "0 < r * ?lo" using r(1) lo_pos by (rule mult_pos_pos)
    then show ?thesis using r'(1) by linarith
  qed
  have sq: "sqrt r * ?lo \<le> sqrt r'" "sqrt r' \<le> sqrt r * ?hi"
    using r(1) r' by (rule sqrt_scaled_bounds)+
  have sq_pos: "0 < sqrt r'" using r'_pos by simp
  have s: "sqrt r' * ?lo \<le> s" "s \<le> sqrt r' * ?hi"
    unfolding s_def using sq_pos by (rule round_double_bounds)+
  have s_pos: "0 < s"
  proof -
    have "0 < sqrt r' * ?lo" using sq_pos lo_pos by (rule mult_pos_pos)
    then show ?thesis using s(1) by linarith
  qed
  have c_eq: "c = 7074237752028440 / 2 ^ 53" by (simp add: c_def M_PI_4)
  have c_pos: "0 < c" by (simp add: c_eq)
  have c_hi: "c \<le> pi / 4" using pi_lower by (simp add: c_eq)
  have c_lo: "pi / 4 * ?lo \<le> c"
  proof -
    have "pi / 4 * ?lo \<le> (31415926535897934 / 10 ^ 16) / 4 * ?lo"
      using pi_upper by simp
    also have "\<dots> \<le> c" by (simp add: c_eq)
    finally show ?thesis .
  qed
  have cs_pos: "0 < c * s" using c_pos s_pos by (rule mult_pos_pos)
  have p: "c * s * ?lo \<le> p" "p \<le> c * s * ?hi"
    unfolding p_def using cs_pos by (rule round_double_bounds)+
  have sr0: "0 \<le> sqrt r" using r(1) by simp
  have v0: "0 \<le> v" using sr0 by (simp add: v_def)
  have "sqrt r < sqrt (2 ^ 31)" using r(2) by (simp only: real_sqrt_less_iff)
  also have "\<dots> \<le> sqrt ((2 ^ 16)\<^sup>2)" by (simp only: real_sqrt_le_iff) simp
  also have "\<dots> = 2 ^ 16" by (simp only: real_sqrt_abs) simp
  finally have sr: "sqrt r < 2 ^ 16" .
  have v_lt: "v < 2 ^ 16"
  proof -
    have "v \<le> 1 * sqrt r" unfolding v_def using pi_less_4 sr0 by (intro mult_right_mono) simp_all
    then show ?thesis using sr by simp
  qed
  have "s \<le> sqrt r * ?hi * ?hi"
  proof -
    have "sqrt r' * ?hi \<le> sqrt r * ?hi * ?hi" using sq(2) by (intro mult_right_mono) simp_all
    then show ?thesis using s(2) by linarith
  qed
  then have "c * s \<le> pi / 4 * (sqrt r * ?hi * ?hi)"
    using c_hi c_pos s_pos by (intro mult_mono) simp_all
  then have "c * s * ?hi \<le> pi / 4 * (sqrt r * ?hi * ?hi) * ?hi"
    by (intro mult_right_mono) simp_all
  then have "p \<le> v * (?hi * ?hi * ?hi)"
    using p(2) by (simp add: v_def mult.assoc)
  also have "\<dots> \<le> v * (1 + 1 / 2 ^ 51)"
    using v0 by (intro mult_left_mono) simp_all
  also have "\<dots> = v + v / 2 ^ 51" by (simp add: algebra_simps)
  also have "\<dots> < v + 1" using v_lt v0 by (simp add: field_simps)
  finally have up: "p < v + 1" .
  have "sqrt r * ?lo * ?lo \<le> s"
  proof -
    have "sqrt r * ?lo * ?lo \<le> sqrt r' * ?lo" using sq(1) by (intro mult_right_mono) simp_all
    then show ?thesis using s(1) by linarith
  qed
  then have "pi / 4 * ?lo * (sqrt r * ?lo * ?lo) \<le> c * s"
    using c_lo sr0 c_pos by (intro mult_mono) simp_all
  then have "pi / 4 * ?lo * (sqrt r * ?lo * ?lo) * ?lo \<le> c * s * ?lo"
    by (intro mult_right_mono) simp_all
  then have "v * (?lo * ?lo * ?lo * ?lo) \<le> p"
    using p(1) by (simp add: v_def mult.assoc mult.left_commute)
  moreover have "v * (1 - 1 / 2 ^ 51) \<le> v * (?lo * ?lo * ?lo * ?lo)"
    using v0 by (intro mult_left_mono) simp_all
  moreover have "v * (1 - 1 / 2 ^ 51) = v - v / 2 ^ 51" by (simp add: algebra_simps)
  moreover have "v - 1 < v - v / 2 ^ 51" using v_lt v0 by (simp add: field_simps)
  ultimately have low: "v - 1 < p" by linarith
  show ?thesis
    using up low unfolding p_def s_def r'_def c_def v_def by linarith
qed

lemma max_close:
  fixes a b :: int
  assumes "a \<le> b + 1" "b \<le> a + 1"
  shows "\<bar>max 1 a - max 1 b\<bar> \<le> 1"
  using assms by (cases "1 \<le> a"; cases "1 \<le> b") (simp_all add: max_def)

lemma floor_close:
  fixes p v :: real
  assumes "\<bar>p - v\<bar> < 1"
  shows "\<bar>max 1 \<lfloor>p\<rfloor> - max 1 \<lfloor>v\<rfloor>\<bar> \<le> 1"
proof -
  have le: "p \<le> v + 1" "v \<le> p + 1" using assms by linarith+
  have "\<lfloor>p\<rfloor> \<le> \<lfloor>v + 1\<rfloor>" using le(1) by (rule floor_mono)
  moreover have "\<lfloor>v\<rfloor> \<le> \<lfloor>p + 1\<rfloor>" using le(2) by (rule floor_mono)
  ultimately have "\<lfloor>p\<rfloor> \<le> \<lfloor>v\<rfloor> + 1" "\<lfloor>v\<rfloor> \<le> \<lfloor>p\<rfloor> + 1" by simp_all
  then show ?thesis by (rule max_close)
qed

lemma iterations_close:
  assumes "0 < total_items" "total_items < 2 ^ 31" "0 < marked_items"
  shows "\<bar>calculate_optimal_iterations total_items marked_items
          - optimal_iterations_formula total_items marked_items\<bar> \<le> 1"
proof -
  let ?r = "real_of_int total_items / real_of_int marked_items"
  have m1: "1 \<le> real_of_int marked_items" using assms(3) by simp
  have t: "real_of_int total_items < 2 ^ 31"
  proof -
    have "real_of_int total_items < real_of_int (2 ^ 31)" using assms(2) by (simp only: of_int_less_iff)
    then show ?thesis by simp
  qed
  have r0: "0 < ?r" using assms by simp
  have "?r \<le> real_of_int total_items / 1"
    using m1 assms(1) by (intro divide_left_mono) simp_all
  then have r1: "?r < 2 ^ 31" using t by simp
  have "\<bar>round_double (round_double (M_PI / 4) * round_double (sqrt (round_double ?r)))
          - pi / 4 * sqrt ?r\<bar> < 1"
    using r0 r1 by (rule computed_value_close)
  then have "\<bar>max 1 \<lfloor>round_double (round_double (M_PI / 4) * round_double (sqrt (round_double ?r)))\<rfloor>
          - max 1 \<lfloor>pi / 4 * sqrt ?r\<rfloor>\<bar> \<le> 1"
    by (rule floor_close)
  then show ?thesis
    using assms by (simp add: calculate_optimal_iterations_def optimal_iterations_formula_def Let_def)
qed

subsection \<open>The claim about the iteration calculator\<close>

text \<open>
  Claim C6 as stated, with the formula read in real arithmetic, fails at
  \<open>total_items = 871437157\<close>, \<open>marked_items = 860074\<close>: the exact value of
  \<open>(\<pi>/4) \<sqdot> sqrt(total_items / marked_items)\<close> is just below \<open>25\<close>, so the formula gives \<open>24\<close>,
  and the double computation rounds to \<open>25.0\<close>.
\<close>

theorem calculate_optimal_iterations_rounds_up:
  "calculate_optimal_iterations 871437157 860074 = 25
   \<and> optimal_iterations_formula 871437157 860074 = 24"
  using iterations_large_computed iterations_large_formula by (rule conjI)

text \<open>
  Claim C6, amended: \<open>calculate_optimal_iterations\<close> returns \<open>1\<close> when \<open>marked_items \<le> 0\<close> or
  \<open>total_items \<le> 0\<close>, and otherwise \<open>max(1, floor(x))\<close> where \<open>x\<close> is
  \<open>(\<pi>/4) \<sqdot> sqrt(total_items / marked_items)\<close> evaluated in double precision (\<open>\<pi>\<close> as the
  double \<^verbatim>\<open>M_PI\<close>; the division, the square root and the product each rounded to nearest).
  The result differs by at most \<open>1\<close> from the formula in real arithmetic; it is \<open>25\<close> at
  \<open>(1024, 1)\<close> and \<open>1\<close> at \<open>(0, 5)\<close>.
\<close>

theorem calculate_optimal_iterations_value:
  assumes "is_int32 total_items" "is_int32 marked_items"
  shows "(marked_items \<le> 0 \<or> total_items \<le> 0
            \<longrightarrow> calculate_optimal_iterations total_items marked_items = 1)
       \<and> (0 < marked_items \<and> 0 < total_items
            \<longrightarrow> calculate_optimal_iterations total_items marked_items
                = max 1 \<lfloor>round_double (round_double (M_PI / 4)
                    * round_double (sqrt (round_double
                        (real_of_int total_items / real_of_int marked_items))))\<rfloor>)
       \<and> \<bar>calculate_optimal_iterations total_items marked_items
            - optimal_iterations_formula total_items marked_items\<bar> \<le> 1
       \<and> calculate_optimal_iterations 1024 1 = 25
       \<and> calculate_optimal_iterations 0 5 = 1"
proof -
  have a: "marked_items \<le> 0 \<or> total_items \<le> 0
            \<longrightarrow> calculate_optimal_iterations total_items marked_items = 1"
    by (simp add: calculate_optimal_iterations_def)
  have b: "0 < marked_items \<and> 0 < total_items
            \<longrightarrow> calculate_optimal_iterations total_items marked_items
                = max 1 \<lfloor>round_double (round_double (M_PI / 4)
                    * round_double (sqrt (round_double
                        (real_of_int total_items / real_of_int marked_items))))\<rfloor>"
    by (simp add: calculate_optimal_iterations_def Let_def)
  have c: "\<bar>calculate_optimal_iterations total_items marked_items
            - optimal_iterations_formula total_items marked_items\<bar> \<le> 1"
  proof (cases "0 < marked_items \<and> 0 < total_items")
    case True
    moreover have "total_items < 2 ^ 31" using assms(1) by (simp add: is_int32_def)
    ultimately show ?thesis by (intro iterations_close) simp_all
  next
    case False
    then show ?thesis
      by (auto simp: calculate_optimal_iterations_def optimal_iterations_formula_def)
  qed
  have d: "calculate_optimal_iterations 1024 1 = 25" by (rule iterations_1024)
  have e: "calculate_optimal_iterations 0 5 = 1"
    by (simp add: calculate_optimal_iterations_def)
  show ?thesis using a b c d e by blast
qed

theorem calculate_optimal_iterations_value_witness:
  "is_int32 1024 \<and> is_int32 1
   \<and> calculate_optimal_iterations 1024 1 = 25
   \<and> \<bar>calculate_optimal_iterations 1024 1 - optimal_iterations_formula 1024 1\<bar> \<le> 1"
proof -
  have a: "is_int32 1024" and b: "is_int32 1" by (simp_all add: is_int32_def)
  show ?thesis using calculate_optimal_iterations_value [OF a b] a b by blast
qed

end
